theory Spec2Isabelle
  imports Main "HOL-Library.Multiset"
begin

section \<open>Rate limiter (src/middleware/rateLimiter.ts)\<close>

text \<open>
  The limiter keeps one entry per client key. JavaScript numbers holding counters and
  millisecond timestamps are modelled as \<open>int\<close>; \<open>Date.now()\<close> is passed in as
  the argument \<open>now\<close>. The object \<open>this.store\<close> is a map from keys to entries.
\<close>

record entry =
  count :: int
  resetTime :: int

type_synonym RateLimitStore = "string \<rightharpoonup> entry"

record RateLimiter =
  store :: RateLimitStore
  windowMs :: int
  maxRequests :: int

text \<open>The constructor: an empty store and the two configured numbers.\<close>

definition newRateLimiter :: "int \<Rightarrow> int \<Rightarrow> RateLimiter" where
  "newRateLimiter w m = \<lparr>store = Map.empty, windowMs = w, maxRequests = m\<rparr>"

text \<open>
  The parts of an Express request that \<open>getKey\<close> reads. A missing value
  (\<open>undefined\<close>) is \<open>None\<close>; the empty string is falsy in \<open>||\<close> as well.
\<close>

record request =
  ip :: "string option"
  remoteAddress :: "string option"
  userAgent :: "string option"

definition orElse :: "string option \<Rightarrow> string \<Rightarrow> string" where
  "orElse v d = (case v of None \<Rightarrow> d | Some s \<Rightarrow> (if s = [] then d else s))"

definition getKey :: "request \<Rightarrow> string" where
  "getKey req =
     (let ip = orElse (ip req) (orElse (remoteAddress req) ''unknown'');
          userAgent = orElse (userAgent req) ''unknown''
      in ip @ '':'' @ take 50 userAgent)"

text \<open>
  What the middleware does with the response: either it sets the three headers and calls
  \<open>next()\<close>, or it answers 429 with the retry guidance and returns.
  \<open>Next limit remaining reset\<close> carries the three \<open>X-RateLimit\<close> headers;
  \<open>TooManyRequests retryAfter limit windowMs\<close> carries the fields of the 429 body.
\<close>

datatype response =
  Next int int int
| TooManyRequests int int int

fun admitted :: "response \<Rightarrow> bool" where
  "admitted (Next _ _ _) = True"
| "admitted (TooManyRequests _ _ _) = False"

text \<open>\<open>Math.ceil(x / 1000)\<close> on an integer \<open>x\<close>.\<close>

definition ceilSeconds :: "int \<Rightarrow> int" where
  "ceilSeconds x = - ((- x) div 1000)"

definition middleware :: "request \<Rightarrow> int \<Rightarrow> RateLimiter \<Rightarrow> response \<times> RateLimiter" where
  "middleware req now rl =
     (let key = getKey req;
          \<comment> \<open>Get or create entry\<close>
          e0 = (case store rl key of
                  None \<Rightarrow> \<lparr>count = 0, resetTime = now + windowMs rl\<rparr>
                | Some e \<Rightarrow> e);
          \<comment> \<open>Reset if window expired\<close>
          e1 = (if now \<ge> resetTime e0
                then \<lparr>count = 0, resetTime = now + windowMs rl\<rparr>
                else e0)
      in \<comment> \<open>Check limit\<close>
         if count e1 \<ge> maxRequests rl
         then (TooManyRequests (ceilSeconds (resetTime e1 - now)) (maxRequests rl) (windowMs rl),
               rl\<lparr>store := (store rl)(key \<mapsto> e1)\<rparr>)
         else \<comment> \<open>Increment counter\<close>
              (let e2 = e1\<lparr>count := count e1 + 1\<rparr>
               in (Next (maxRequests rl) (maxRequests rl - count e2) (resetTime e2),
                   rl\<lparr>store := (store rl)(key \<mapsto> e2)\<rparr>)))"

text \<open>
  The periodic sweep: every entry whose window has expired and whose count is zero is
  deleted; every other entry is kept as it is.
\<close>

definition cleanup :: "int \<Rightarrow> RateLimiter \<Rightarrow> RateLimiter" where
  "cleanup now rl =
     rl\<lparr>store := (\<lambda>key. case store rl key of
                        None \<Rightarrow> None
                      | Some e \<Rightarrow> (if now \<ge> resetTime e \<and> count e = 0 then None else Some e))\<rparr>"

definition reset :: "RateLimiter \<Rightarrow> RateLimiter" where
  "reset rl = rl\<lparr>store := Map.empty\<rparr>"

text \<open>
  What happens to a limiter over its life, short of the administrative \<open>reset\<close>:
  requests of any client at any time, and sweeps at any time.
\<close>

datatype event = Request request int | Cleanup int

fun step :: "event \<Rightarrow> RateLimiter \<Rightarrow> RateLimiter" where
  "step (Request req now) rl = snd (middleware req now rl)"
| "step (Cleanup now) rl = cleanup now rl"

fun run :: "event list \<Rightarrow> RateLimiter \<Rightarrow> RateLimiter" where
  "run [] rl = rl"
| "run (ev # evs) rl = run evs (step ev rl)"

fun fromClient :: "string \<Rightarrow> event \<Rightarrow> bool" where
  "fromClient key (Request req now) = (getKey req = key)"
| "fromClient key (Cleanup now) = False"

text \<open>
  The responses that one client receives, in order, while the events happen; and the
  events that fit a window of that client: its own requests come before \<open>resetAt\<close>,
  the requests of other clients and the sweeps come at any time.
\<close>

fun responses :: "string \<Rightarrow> event list \<Rightarrow> RateLimiter \<Rightarrow> response list" where
  "responses key [] rl = []"
| "responses key (Request req now # evs) rl =
     (if getKey req = key then [fst (middleware req now rl)] else [])
     @ responses key evs (snd (middleware req now rl))"
| "responses key (Cleanup now # evs) rl = responses key evs (cleanup now rl)"

fun inWindow :: "string \<Rightarrow> int \<Rightarrow> event \<Rightarrow> bool" where
  "inWindow key resetAt (Request req now) = (getKey req = key \<longrightarrow> now < resetAt)"
| "inWindow key resetAt (Cleanup now) = True"


section \<open>Query filter to where clause (src/services/vectorService.ts, \<open>query\<close>)\<close>

text \<open>
  The options of \<open>VectorService.query\<close>. An optional property is an \<open>option\<close>;
  a \<open>Date\<close> is its \<open>getTime()\<close>, in milliseconds.
\<close>

record timeRange =
  rangeStart :: int
  rangeEnd :: int

record queryOptions =
  type :: "string list option"
  limit :: "nat option"
  timeRange :: "timeRange option"
  symbols :: "string list option"

text \<open>
  The condition objects handed to the store: \<open>Equals f v\<close> is \<open>{ f: v }\<close>,
  \<open>Or cs\<close> is \<open>{ "$or": cs }\<close> and \<open>And cs\<close> is \<open>{ "$and": cs }\<close>.
\<close>

datatype predicate =
  Equals string string
| Or "predicate list"
| And "predicate list"

text \<open>
  One \<open>if\<close> block of the source pushes at most one condition for its dimension:
  nothing when the array is missing or empty, the bare pair for one value, an
  \<open>$or\<close> of pairs otherwise.
\<close>

definition dimension :: "string \<Rightarrow> string list option \<Rightarrow> predicate list" where
  "dimension field values =
     (case values of
        None \<Rightarrow> []
      | Some vs \<Rightarrow>
          (if length vs > 0
           then (if length vs = 1
                 then [Equals field (hd vs)]
                 else [Or (map (\<lambda>v. Equals field v) vs)])
           else []))"

text \<open>
  The time-range block of the source only writes a log line; the four lines that would
  push the two bounds are commented out, so it pushes nothing.
\<close>

definition timeRangeConditions :: "timeRange option \<Rightarrow> predicate list" where
  "timeRangeConditions tr = (case tr of None \<Rightarrow> [] | Some r \<Rightarrow> [])"

definition conditions :: "queryOptions \<Rightarrow> predicate list" where
  "conditions options =
     dimension ''type'' (type options)
     @ timeRangeConditions (timeRange options)
     @ dimension ''symbol'' (symbols options)"

text \<open>
  The \<open>where\<close> argument of \<open>collection.query\<close>: \<open>None\<close> stands for the empty
  object, which the source passes on as \<open>undefined\<close>.
\<close>

definition whereClause :: "queryOptions \<Rightarrow> predicate option" where
  "whereClause options =
     (let cs = conditions options
      in if length cs = 1 then Some (hd cs)
         else if length cs > 1 then Some (And cs)
         else None)"


section \<open>Effects and failures\<close>

text \<open>
  The services below talk to a Redis server, to the fetchers of the data sources and to
  the vector store. The world they act on holds the cache service's connection flag, the
  contents of the Redis server (key, value and time to live in seconds), whether each of
  the coming Redis commands will be rejected (\<open>True\<close>: the client call throws; once
  the list is used up every command succeeds), and a log of the calls made so far.
  An asynchronous method is a function from the world to its outcome and the world
  afterwards; \<open>Inl\<close> is a rejected promise (a thrown error).
\<close>

datatype error = Error string

datatype task = News | Crypto | Stocks | Trends | Rates | Economic

record DataSource =
  itemType :: string
  itemSymbol :: "string option"
  itemSource :: string
  itemTimestamp :: int
  content :: string
  metadata :: "(string \<times> string) list"

datatype effect =
  CacheGet string
| CacheSet string string "int option"
| CacheDel string
| CacheExists string
| CacheKeys string
| CacheFlushPattern string
| Fetch task
| AddData "DataSource list"
| Fetcher

record world =
  isConnected :: bool
  entries :: "(string \<times> string \<times> int option) list"
  faults :: "bool list"
  trace :: "effect list"

type_synonym 'a io = "world \<Rightarrow> (error + 'a) \<times> world"

definition ret :: "'a \<Rightarrow> 'a io" where
  "ret v w = (Inr v, w)"

definition throw :: "error \<Rightarrow> 'a io" where
  "throw e w = (Inl e, w)"

text \<open>\<open>await m\<close> followed by the rest of the body: an error of \<open>m\<close> ends the body.\<close>

definition andThen :: "'a io \<Rightarrow> ('a \<Rightarrow> 'b io) \<Rightarrow> 'b io" where
  "andThen m f w = (case m w of (Inl e, w1) \<Rightarrow> (Inl e, w1) | (Inr v, w1) \<Rightarrow> f v w1)"

text \<open>\<open>try { m } catch (error) { h error }\<close>.\<close>

definition tryCatch :: "'a io \<Rightarrow> (error \<Rightarrow> 'a io) \<Rightarrow> 'a io" where
  "tryCatch m h w = (case m w of (Inl e, w1) \<Rightarrow> h e w1 | (Inr v, w1) \<Rightarrow> (Inr v, w1))"

definition record_effect :: "effect \<Rightarrow> unit io" where
  "record_effect x w = (Inr (), w\<lparr>trace := trace w @ [x]\<rparr>)"

text \<open>A string or \<open>null\<close> in a condition: \<open>null\<close> and the empty string are falsy.\<close>

definition truthy :: "string option \<Rightarrow> bool" where
  "truthy v = (case v of None \<Rightarrow> False | Some s \<Rightarrow> s \<noteq> [])"

section \<open>The Redis client\<close>

text \<open>
  One command sent to the server: it takes the next fault flag; when that is set the
  command is rejected and leaves the contents alone, otherwise it answers and updates
  the contents.
\<close>

definition command :: "((string \<times> string \<times> int option) list \<Rightarrow> 'a \<times> (string \<times> string \<times> int option) list) \<Rightarrow> 'a io" where
  "command f w =
     (case faults w of
        True # fs \<Rightarrow> (Inl (Error ''redis''), w\<lparr>faults := fs\<rparr>)
      | False # fs \<Rightarrow> (case f (entries w) of (v, es) \<Rightarrow> (Inr v, w\<lparr>entries := es, faults := fs\<rparr>))
      | [] \<Rightarrow> (case f (entries w) of (v, es) \<Rightarrow> (Inr v, w\<lparr>entries := es\<rparr>)))"

text \<open>Whether the command number \<open>n\<close> from now (from 0) will be rejected.\<close>

definition rejected :: "nat \<Rightarrow> world \<Rightarrow> bool" where
  "rejected n w = (n < length (faults w) \<and> faults w ! n)"

definition without :: "string list \<Rightarrow> (string \<times> string \<times> int option) list \<Rightarrow> (string \<times> string \<times> int option) list" where
  "without ks es = filter (\<lambda>e. fst e \<notin> set ks) es"

definition client_get :: "string \<Rightarrow> string option io" where
  "client_get key = command (\<lambda>es. (map_option fst (map_of es key), es))"

definition client_set :: "string \<Rightarrow> string \<Rightarrow> unit io" where
  "client_set key v = command (\<lambda>es. ((), (key, v, None) # without [key] es))"

definition client_setEx :: "string \<Rightarrow> int \<Rightarrow> string \<Rightarrow> unit io" where
  "client_setEx key ttl v = command (\<lambda>es. ((), (key, v, Some ttl) # without [key] es))"

definition client_del :: "string list \<Rightarrow> int io" where
  "client_del ks =
     command (\<lambda>es. (int (length (filter (\<lambda>e. fst e \<in> set ks) es)), without ks es))"

definition client_exists :: "string \<Rightarrow> int io" where
  "client_exists key = command (\<lambda>es. ((if map_of es key = None then 0 else 1), es))"

text \<open>
  \<open>KEYS pattern\<close>: the server's pattern matching is not part of this repository and is
  taken as the parameter \<open>glob\<close> (pattern, then key).
\<close>

definition client_keys :: "(string \<Rightarrow> string \<Rightarrow> bool) \<Rightarrow> string \<Rightarrow> string list io" where
  "client_keys glob pattern = command (\<lambda>es. (filter (glob pattern) (map fst es), es))"

section \<open>Cache service (class \<open>CacheService\<close>)\<close>

definition get :: "string \<Rightarrow> string option io" where
  "get key =
     andThen (record_effect (CacheGet key)) (\<lambda>_. (\<lambda>w.
       if \<not> isConnected w then ret None w
       else tryCatch
              (andThen (client_get key) (\<lambda>v. ret v))
              (\<lambda>error. ret None) w))"

definition set' :: "string \<Rightarrow> string \<Rightarrow> int option \<Rightarrow> bool io" where
  "set' key v ttlSeconds =
     andThen (record_effect (CacheSet key v ttlSeconds)) (\<lambda>_. (\<lambda>w.
       if \<not> isConnected w then ret False w
       else tryCatch
              (andThen
                 (case ttlSeconds of
                    None \<Rightarrow> client_set key v
                  | Some t \<Rightarrow> (if t \<noteq> 0 then client_setEx key t v else client_set key v))
                 (\<lambda>_. ret True))
              (\<lambda>error. ret False) w))"

definition del :: "string \<Rightarrow> bool io" where
  "del key =
     andThen (record_effect (CacheDel key)) (\<lambda>_. (\<lambda>w.
       if \<not> isConnected w then ret False w
       else tryCatch
              (andThen (client_del [key]) (\<lambda>result. ret (result > 0)))
              (\<lambda>error. ret False) w))"

definition exists :: "string \<Rightarrow> bool io" where
  "exists key =
     andThen (record_effect (CacheExists key)) (\<lambda>_. (\<lambda>w.
       if \<not> isConnected w then ret False w
       else tryCatch
              (andThen (client_exists key) (\<lambda>result. ret (result > 0)))
              (\<lambda>error. ret False) w))"

definition keys :: "(string \<Rightarrow> string \<Rightarrow> bool) \<Rightarrow> string \<Rightarrow> string list io" where
  "keys glob pattern =
     andThen (record_effect (CacheKeys pattern)) (\<lambda>_. (\<lambda>w.
       if \<not> isConnected w then ret [] w
       else tryCatch
              (client_keys glob pattern)
              (\<lambda>error. ret []) w))"

definition flushPattern :: "(string \<Rightarrow> string \<Rightarrow> bool) \<Rightarrow> string \<Rightarrow> int io" where
  "flushPattern glob pattern =
     andThen (record_effect (CacheFlushPattern pattern)) (\<lambda>_. (\<lambda>w.
       if \<not> isConnected w then ret 0 w
       else tryCatch
              (andThen (keys glob pattern) (\<lambda>ks.
                 if length ks = 0 then ret 0
                 else andThen (client_del ks) (\<lambda>result. ret result)))
              (\<lambda>error. ret 0) w))"

text \<open>
  \<open>getOrSet\<close>. The fetcher is any asynchronous function of the caller's: the model
  takes what it returns (or throws) and logs the call. The serializer's two functions
  may throw as well (\<open>JSON.parse\<close> does on a malformed payload).
\<close>

record 'a serializer =
  serialize :: "'a \<Rightarrow> error + string"
  deserialize :: "string \<Rightarrow> error + 'a"

definition call_fetcher :: "(error + 'a) \<Rightarrow> 'a io" where
  "call_fetcher fetcher =
     andThen (record_effect Fetcher) (\<lambda>_. case fetcher of Inl e \<Rightarrow> throw e | Inr v \<Rightarrow> ret v)"

definition pure :: "(error + 'a) \<Rightarrow> 'a io" where
  "pure r = (case r of Inl e \<Rightarrow> throw e | Inr v \<Rightarrow> ret v)"

definition getOrSet :: "string \<Rightarrow> (error + 'a) \<Rightarrow> int option \<Rightarrow> 'a serializer \<Rightarrow> 'a io" where
  "getOrSet key fetcher ttlSeconds serializer =
     andThen (get key) (\<lambda>cached.
       andThen
         (case cached of
            None \<Rightarrow> ret None
          | Some c \<Rightarrow>
              (if c \<noteq> []
               then tryCatch
                      (andThen (pure (deserialize serializer c)) (\<lambda>v. ret (Some v)))
                      (\<lambda>error. andThen (del key) (\<lambda>_. ret None))
               else ret None))
         (\<lambda>hit. case hit of
            Some v \<Rightarrow> ret v
          | None \<Rightarrow>
              andThen (call_fetcher fetcher) (\<lambda>freshData.
              andThen (pure (serialize serializer freshData)) (\<lambda>serialized.
              andThen (set' key serialized ttlSeconds) (\<lambda>_.
              ret freshData)))))"


section \<open>Ingestion scheduler (class \<open>SchedulerService\<close>)\<close>

text \<open>
  The collaborators of a pipeline. What a fetcher of \<open>DataSourceService\<close> returns (or
  throws) depends on the network only, and so does the vector store's
  \<open>collection.add\<close>: both are given by the environment. So is the order in which the
  operations awaited by pipelines that run at the same time complete: each number of
  \<open>completions\<close> names the branch (from 0) whose awaited operation completes next.
\<close>

record env =
  fetchResult :: "task \<Rightarrow> error + DataSource list"
  collectionAdd :: "DataSource list \<Rightarrow> error + unit"
  completions :: "nat list"

definition fetch :: "env \<Rightarrow> task \<Rightarrow> DataSource list io" where
  "fetch env t = andThen (record_effect (Fetch t)) (\<lambda>_. pure (fetchResult env t))"

definition fetchNews :: "env \<Rightarrow> DataSource list io" where
  "fetchNews env = fetch env News"

definition fetchCryptoData :: "env \<Rightarrow> DataSource list io" where
  "fetchCryptoData env = fetch env Crypto"

definition fetchStockData :: "env \<Rightarrow> DataSource list io" where
  "fetchStockData env = fetch env Stocks"

definition fetchTrendsData :: "env \<Rightarrow> DataSource list io" where
  "fetchTrendsData env = fetch env Trends"

definition fetchCentralBankRates :: "env \<Rightarrow> DataSource list io" where
  "fetchCentralBankRates env = fetch env Rates"

definition fetchEconomicIndicators :: "env \<Rightarrow> DataSource list io" where
  "fetchEconomicIndicators env = fetch env Economic"

text \<open>
  \<open>VectorService.addData\<close>: \<open>prepareVectorData\<close> maps the items one to one, an empty
  batch returns at once, and an error of \<open>collection.add\<close> is logged and thrown again.
\<close>

definition addData :: "env \<Rightarrow> DataSource list \<Rightarrow> unit io" where
  "addData env data =
     andThen (record_effect (AddData data)) (\<lambda>_.
       tryCatch
         (if length data = 0 then ret ()
          else pure (collectionAdd env data))
         (\<lambda>error. throw error))"

text \<open>\<open>config.cache.ttl\<close>, in seconds.\<close>

definition cache_ttl :: "task \<Rightarrow> int" where
  "cache_ttl t =
     (case t of News \<Rightarrow> 900 | Crypto \<Rightarrow> 300 | Stocks \<Rightarrow> 600
      | Trends \<Rightarrow> 21600 | Rates \<Rightarrow> 604800 | Economic \<Rightarrow> 604800)"

text \<open>
  The six \<open>ingest\<close> methods have one body, with their own cache key, fetcher and time
  to live: the whole body stands in a \<open>try\<close> whose \<open>catch\<close> logs the error.
\<close>

definition ingestion :: "string \<Rightarrow> DataSource list io \<Rightarrow> int \<Rightarrow> env \<Rightarrow> unit io" where
  "ingestion cacheKey fetchData ttl env =
     tryCatch
       (andThen (get cacheKey) (\<lambda>cached.
          if truthy cached then ret ()
          else andThen fetchData (\<lambda>data.
                 if length data > 0
                 then andThen (addData env data) (\<lambda>_.
                      andThen (set' cacheKey ''fetched'' (Some ttl)) (\<lambda>_.
                      ret ()))
                 else ret ())))
       (\<lambda>error. ret ())"

definition ingestNews :: "env \<Rightarrow> unit io" where
  "ingestNews env = ingestion ''news_latest'' (fetchNews env) (cache_ttl News) env"

definition ingestCrypto :: "env \<Rightarrow> unit io" where
  "ingestCrypto env = ingestion ''crypto_latest'' (fetchCryptoData env) (cache_ttl Crypto) env"

definition ingestStocks :: "env \<Rightarrow> unit io" where
  "ingestStocks env = ingestion ''stocks_latest'' (fetchStockData env) (cache_ttl Stocks) env"

definition ingestTrends :: "env \<Rightarrow> unit io" where
  "ingestTrends env = ingestion ''trends_latest'' (fetchTrendsData env) (cache_ttl Trends) env"

definition ingestRates :: "env \<Rightarrow> unit io" where
  "ingestRates env = ingestion ''rates_latest'' (fetchCentralBankRates env) (cache_ttl Rates) env"

definition ingestEconomicData :: "env \<Rightarrow> unit io" where
  "ingestEconomicData env =
     ingestion ''economic_latest'' (fetchEconomicIndicators env) (cache_ttl Economic) env"

text \<open>The pipeline of a task, and the key of its dedup marker.\<close>

definition ingest :: "task \<Rightarrow> env \<Rightarrow> unit io" where
  "ingest t =
     (case t of News \<Rightarrow> ingestNews | Crypto \<Rightarrow> ingestCrypto | Stocks \<Rightarrow> ingestStocks
      | Trends \<Rightarrow> ingestTrends | Rates \<Rightarrow> ingestRates | Economic \<Rightarrow> ingestEconomicData)"

definition cacheKey :: "task \<Rightarrow> string" where
  "cacheKey t =
     (case t of News \<Rightarrow> ''news_latest'' | Crypto \<Rightarrow> ''crypto_latest''
      | Stocks \<Rightarrow> ''stocks_latest'' | Trends \<Rightarrow> ''trends_latest''
      | Rates \<Rightarrow> ''rates_latest'' | Economic \<Rightarrow> ''economic_latest'')"

section \<open>The full run: six pipelines at the same time\<close>

text \<open>
  \<open>ingestAll\<close> calls the six \<open>ingest\<close> methods one after the other without
  awaiting them, and then awaits \<open>Promise.allSettled\<close> of the six promises. A called
  method runs up to its first \<open>await\<close> and is resumed when the awaited operation has
  completed; between two awaits nothing else runs. A branch is therefore one of the stages
  below: it has issued the operation it awaits (whose effect on the world has happened,
  and whose outcome it holds) or it has settled. Its steps are the pieces of the body of
  \<open>ingestion\<close> between the awaits, with the \<open>catch\<close> of that body at every one.
\<close>

datatype stage =
  AwaitingGet "error + string option"
| AwaitingFetch "error + DataSource list"
| AwaitingAddData "error + unit"
| AwaitingSet "error + bool"
| Settled "error + unit"

fun isSettled :: "stage \<Rightarrow> bool" where
  "isSettled (Settled r) = True"
| "isSettled st = False"

text \<open>A branch that has not settled with an error: it is pending or fulfilled.\<close>

fun unrejected :: "stage \<Rightarrow> bool" where
  "unrejected (Settled (Inl e)) = False"
| "unrejected st = True"

definition startIngest :: "task \<Rightarrow> env \<Rightarrow> world \<Rightarrow> stage \<times> world" where
  "startIngest t env w = (case get (cacheKey t) w of (r, w1) \<Rightarrow> (AwaitingGet r, w1))"

fun resumeIngest :: "task \<Rightarrow> env \<Rightarrow> stage \<Rightarrow> world \<Rightarrow> stage \<times> world" where
  "resumeIngest t env (AwaitingGet r) w =
     (case r of
        Inl error \<Rightarrow> (Settled (Inr ()), w)
      | Inr cached \<Rightarrow>
          (if truthy cached then (Settled (Inr ()), w)
           else (case fetch env t w of (r1, w1) \<Rightarrow> (AwaitingFetch r1, w1))))"
| "resumeIngest t env (AwaitingFetch r) w =
     (case r of
        Inl error \<Rightarrow> (Settled (Inr ()), w)
      | Inr data \<Rightarrow>
          (if length data > 0
           then (case addData env data w of (r1, w1) \<Rightarrow> (AwaitingAddData r1, w1))
           else (Settled (Inr ()), w)))"
| "resumeIngest t env (AwaitingAddData r) w =
     (case r of
        Inl error \<Rightarrow> (Settled (Inr ()), w)
      | Inr u \<Rightarrow>
          (case set' (cacheKey t) ''fetched'' (Some (cache_ttl t)) w of
             (r1, w1) \<Rightarrow> (AwaitingSet r1, w1)))"
| "resumeIngest t env (AwaitingSet r) w = (Settled (Inr ()), w)"
| "resumeIngest t env (Settled r) w = (Settled r, w)"

text \<open>
  Calling the methods in the order of the array; resuming the branch with a given number;
  resuming every branch once, in the order of the array.
\<close>

fun startAll :: "env \<Rightarrow> task list \<Rightarrow> world \<Rightarrow> (task \<times> stage) list \<times> world" where
  "startAll env [] w = ([], w)"
| "startAll env (t # ts) w =
     (case startIngest t env w of (st, w1) \<Rightarrow>
        (case startAll env ts w1 of (bs, w2) \<Rightarrow> ((t, st) # bs, w2)))"

fun resumeAt :: "env \<Rightarrow> nat \<Rightarrow> (task \<times> stage) list \<Rightarrow> world \<Rightarrow> (task \<times> stage) list \<times> world" where
  "resumeAt env i [] w = ([], w)"
| "resumeAt env 0 ((t, st) # bs) w =
     (case resumeIngest t env st w of (st1, w1) \<Rightarrow> ((t, st1) # bs, w1))"
| "resumeAt env (Suc i) (b # bs) w =
     (case resumeAt env i bs w of (bs1, w1) \<Rightarrow> (b # bs1, w1))"

fun resumeAll :: "env \<Rightarrow> (task \<times> stage) list \<Rightarrow> world \<Rightarrow> (task \<times> stage) list \<times> world" where
  "resumeAll env [] w = ([], w)"
| "resumeAll env ((t, st) # bs) w =
     (case resumeIngest t env st w of (st1, w1) \<Rightarrow>
        (case resumeAll env bs w1 of (bs1, w2) \<Rightarrow> ((t, st1) # bs1, w2)))"

text \<open>The number of awaits a branch may still have before it.\<close>

fun awaitsLeft :: "stage \<Rightarrow> nat" where
  "awaitsLeft (AwaitingGet r) = 4"
| "awaitsLeft (AwaitingFetch r) = 3"
| "awaitsLeft (AwaitingAddData r) = 2"
| "awaitsLeft (AwaitingSet r) = 1"
| "awaitsLeft (Settled r) = 0"

definition allAwaitsLeft :: "(task \<times> stage) list \<Rightarrow> nat" where
  "allAwaitsLeft bs = sum_list (map (\<lambda>b. awaitsLeft (snd b)) bs)"

lemma resumeIngest_awaitsLeft:
  "awaitsLeft (fst (resumeIngest t env st w)) \<le> awaitsLeft st
   \<and> (\<not> isSettled st \<longrightarrow> awaitsLeft (fst (resumeIngest t env st w)) < awaitsLeft st)"
  by (cases st) (auto split: sum.splits prod.splits)

lemma resumeAt_awaitsLeft: "allAwaitsLeft (fst (resumeAt env i bs w)) \<le> allAwaitsLeft bs"
proof (induction env i bs w rule: resumeAt.induct)
  case (1 env i w)
  then show ?case by simp
next
  case (2 env t st bs w)
  obtain st1 w1 where r: "resumeIngest t env st w = (st1, w1)" by (cases "resumeIngest t env st w")
  show ?case
    using resumeIngest_awaitsLeft[of t env st w] by (simp add: allAwaitsLeft_def r)
next
  case (3 env i b bs w)
  then show ?case by (simp add: allAwaitsLeft_def split_beta)
qed

lemma resumeAll_awaitsLeft:
  "allAwaitsLeft (fst (resumeAll env bs w)) \<le> allAwaitsLeft bs
   \<and> (\<not> list_all (\<lambda>b. isSettled (snd b)) bs \<longrightarrow>
        allAwaitsLeft (fst (resumeAll env bs w)) < allAwaitsLeft bs)"
proof (induction env bs w rule: resumeAll.induct)
  case (1 env w)
  then show ?case by simp
next
  case (2 env t st bs w)
  obtain st1 w1 where r: "resumeIngest t env st w = (st1, w1)" by (cases "resumeIngest t env st w")
  have a: "awaitsLeft st1 \<le> awaitsLeft st \<and> (\<not> isSettled st \<longrightarrow> awaitsLeft st1 < awaitsLeft st)"
    using resumeIngest_awaitsLeft[of t env st w] r by simp
  have ih: "allAwaitsLeft (fst (resumeAll env bs w1)) \<le> allAwaitsLeft bs
   \<and> (\<not> list_all (\<lambda>b. isSettled (snd b)) bs \<longrightarrow>
        allAwaitsLeft (fst (resumeAll env bs w1)) < allAwaitsLeft bs)"
    using "2.IH"[OF r[symmetric]] by simp
  show ?case using a ih
    by (auto simp add: allAwaitsLeft_def r split_beta)
qed

function allSettled :: "env \<Rightarrow> nat list \<Rightarrow> (task \<times> stage) list \<Rightarrow> world \<Rightarrow> (task \<times> stage) list \<times> world" where
  "allSettled env order bs w =
     (if list_all (\<lambda>b. isSettled (snd b)) bs then (bs, w)
      else (case order of
              [] \<Rightarrow> allSettled env [] (fst (resumeAll env bs w)) (snd (resumeAll env bs w))
            | i # rest \<Rightarrow> allSettled env rest (fst (resumeAt env i bs w)) (snd (resumeAt env i bs w))))"
  by pat_completeness auto
termination
proof (relation "measure (\<lambda>(env, order, bs, w). allAwaitsLeft bs + length order)")
  show "wf (measure (\<lambda>(env, order, bs, w). allAwaitsLeft bs + length order))" by simp
next
  fix env :: env and order :: "nat list" and bs :: "(task \<times> stage) list" and w :: world
  assume "\<not> list_all (\<lambda>b. isSettled (snd b)) bs" and "order = []"
  then show "((env, [], fst (resumeAll env bs w), snd (resumeAll env bs w)), env, order, bs, w)
      \<in> measure (\<lambda>(env, order, bs, w). allAwaitsLeft bs + length order)"
    using resumeAll_awaitsLeft[of env bs w] by (simp add: split_beta)
next
  fix env :: env and order :: "nat list" and bs :: "(task \<times> stage) list" and w :: world
    and i :: nat and rest :: "nat list"
  assume "\<not> list_all (\<lambda>b. isSettled (snd b)) bs" and "order = i # rest"
  then show "((env, rest, fst (resumeAt env i bs w), snd (resumeAt env i bs w)), env, order, bs, w)
      \<in> measure (\<lambda>(env, order, bs, w). allAwaitsLeft bs + length order)"
    using resumeAt_awaitsLeft[of env i bs w] by (simp add: split_beta)
qed

declare allSettled.simps [simp del]

text \<open>
  The six branches of \<open>ingestAll\<close> when \<open>Promise.allSettled\<close> returns, and the world
  then; \<open>ingestAll\<close> itself returns nothing.
\<close>

definition fanOut :: "env \<Rightarrow> world \<Rightarrow> (task \<times> stage) list \<times> world" where
  "fanOut env w =
     (case startAll env [News, Crypto, Stocks, Trends, Rates, Economic] w of
        (bs, w1) \<Rightarrow> allSettled env (completions env) bs w1)"

definition ingestAll :: "env \<Rightarrow> unit io" where
  "ingestAll env w = (Inr (), snd (fanOut env w))"

text \<open>
  \<open>isMarketHours\<close> reads the day of the week (0 is Sunday, 6 is Saturday) and the hour
  of the current local time.
\<close>

record clock =
  day :: nat
  hour :: nat

definition isMarketHours :: "clock \<Rightarrow> bool" where
  "isMarketHours now =
     (if day now = 0 \<or> day now = 6 then False
      else if hour now < 9 \<or> hour now \<ge> 16 then False
      else True)"

text \<open>The functions that \<open>start\<close> registers, one for each task.\<close>

definition startTask :: "task \<Rightarrow> clock \<Rightarrow> env \<Rightarrow> unit io" where
  "startTask t now env =
     (case t of
        News \<Rightarrow> ingestNews env
      | Crypto \<Rightarrow> ingestCrypto env
      | Stocks \<Rightarrow> (if isMarketHours now then ingestStocks env else ret ())
      | Trends \<Rightarrow> ingestTrends env
      | Rates \<Rightarrow> ingestRates env
      | Economic \<Rightarrow> ingestEconomicData env)"

text \<open>One firing of a task's trigger, as \<open>scheduleTask\<close> wraps it.\<close>

definition scheduleTask :: "task \<Rightarrow> clock \<Rightarrow> env \<Rightarrow> unit io" where
  "scheduleTask t now env = tryCatch (startTask t now env) (\<lambda>error. ret ())"

definition runOnce :: "string \<Rightarrow> env \<Rightarrow> unit io" where
  "runOnce taskType env =
     (if taskType = ''news'' then ingestNews env
      else if taskType = ''crypto'' then ingestCrypto env
      else if taskType = ''stocks'' then ingestStocks env
      else if taskType = ''trends'' then ingestTrends env
      else if taskType = ''rates'' then ingestRates env
      else if taskType = ''economic'' then ingestEconomicData env
      else if taskType = ''all'' then ingestAll env
      else throw (Error (''Unknown task type: '' @ taskType)))"


text \<open>
  What the dedup check of a task's pipeline finds: the marker is present when
  \<open>cacheService.get\<close> on the task's key answers a non-empty string.
\<close>

definition markerPresent :: "task \<Rightarrow> world \<Rightarrow> bool" where
  "markerPresent t w = (case fst (get (cacheKey t) w) of Inl e \<Rightarrow> False | Inr c \<Rightarrow> truthy c)"

text \<open>
  The calls that one run of a pipeline makes, given whether its dedup check finds the
  marker: the check, then the fetch unless the marker is there, then the store if items
  came back, then the marker write if the store returned normally.
\<close>

definition pipelineCalls :: "env \<Rightarrow> task \<Rightarrow> bool \<Rightarrow> effect list" where
  "pipelineCalls env t present =
     CacheGet (cacheKey t) #
       (if present then []
        else Fetch t #
          (case fetchResult env t of
             Inl e \<Rightarrow> []
           | Inr items \<Rightarrow>
               (if items = [] then []
                else AddData items #
                  (case collectionAdd env items of
                     Inl e \<Rightarrow> []
                   | Inr u \<Rightarrow> [CacheSet (cacheKey t) ''fetched'' (Some (cache_ttl t))]))))"

text \<open>The world after the dedup checks of the listed tasks, made one after the other.\<close>

fun afterChecks :: "task list \<Rightarrow> world \<Rightarrow> world" where
  "afterChecks [] w = w"
| "afterChecks (t # ts) w = afterChecks ts (snd (get (cacheKey t) w))"

text \<open>The calls that a branch in a given stage still has before it.\<close>

fun callsLeft :: "env \<Rightarrow> task \<times> stage \<Rightarrow> effect list" where
  "callsLeft env (t, AwaitingGet r) =
     (case r of Inl e \<Rightarrow> [] | Inr cached \<Rightarrow> tl (pipelineCalls env t (truthy cached)))"
| "callsLeft env (t, AwaitingFetch r) =
     (case r of
        Inl e \<Rightarrow> []
      | Inr items \<Rightarrow>
          (if items = [] then []
           else AddData items #
             (case collectionAdd env items of
                Inl e \<Rightarrow> []
              | Inr u \<Rightarrow> [CacheSet (cacheKey t) ''fetched'' (Some (cache_ttl t))])))"
| "callsLeft env (t, AwaitingAddData r) =
     (case r of Inl e \<Rightarrow> [] | Inr u \<Rightarrow> [CacheSet (cacheKey t) ''fetched'' (Some (cache_ttl t))])"
| "callsLeft env (t, AwaitingSet r) = []"
| "callsLeft env (t, Settled r) = []"

section \<open>Example inputs\<close>

text \<open>
  Concrete collaborators and worlds on which the theorems below are run: sources that
  each return one item, sources of which the news feed times out (once with the
  operations completing in turn, once with those of the last branch completing first),
  sources that return nothing, a vector store that rejects every batch; two clients of
  the rate limiter; a connected and empty cache, and one that holds the marker of the
  equities pipeline; a serializer of plain strings that rejects the payload \<open>{\<close>, as
  \<open>JSON.parse\<close> does.
\<close>

definition exampleItem :: DataSource where
  "exampleItem = \<lparr>itemType = ''stock'', itemSymbol = Some ''AAPL'', itemSource = ''Alpha Vantage'',
      itemTimestamp = 0, content = ''AAPL stock price'', metadata = []\<rparr>"

definition envItems :: env where
  "envItems = \<lparr>fetchResult = (\<lambda>t. Inr [exampleItem]), collectionAdd = (\<lambda>d. Inr ()),
      completions = []\<rparr>"

definition envNewsFails :: env where
  "envNewsFails = \<lparr>fetchResult = (\<lambda>t. if t = News then Inl (Error ''timeout'') else Inr [exampleItem]),
      collectionAdd = (\<lambda>d. Inr ()), completions = []\<rparr>"

definition envNewsFailsLastFirst :: env where
  "envNewsFailsLastFirst = envNewsFails\<lparr>completions := [5, 5, 5, 5, 0, 9]\<rparr>"

definition envEmpty :: env where
  "envEmpty = \<lparr>fetchResult = (\<lambda>t. Inr []), collectionAdd = (\<lambda>d. Inr ()), completions = []\<rparr>"

definition envStoreFails :: env where
  "envStoreFails = \<lparr>fetchResult = (\<lambda>t. Inr [exampleItem]),
      collectionAdd = (\<lambda>d. Inl (Error ''store unavailable'')), completions = []\<rparr>"

definition alice :: request where
  "alice = \<lparr>ip = Some ''10.0.0.1'', remoteAddress = None, userAgent = Some ''curl''\<rparr>"

definition bob :: request where
  "bob = \<lparr>ip = Some ''10.0.0.2'', remoteAddress = None, userAgent = None\<rparr>"

definition freshWorld :: world where
  "freshWorld = \<lparr>isConnected = True, entries = [], faults = [], trace = []\<rparr>"

definition markedWorld :: world where
  "markedWorld = \<lparr>isConnected = True, entries = [(''stocks_latest'', ''fetched'', Some 600)], faults = [], trace = []\<rparr>"

definition textSerializer :: "string serializer" where
  "textSerializer = \<lparr>serialize = (\<lambda>x. Inr x),
      deserialize = (\<lambda>s. if s = ''{'' then Inl (Error ''SyntaxError'') else Inr s)\<rparr>"

section \<open>Properties of the rate limiter\<close>

text \<open>One request inside a live window, and one request that opens a window.\<close>

lemma middleware_in_window:
  assumes "store rl (getKey req) = Some e" and "now < resetTime e"
  shows "middleware req now rl =
     (if count e \<ge> maxRequests rl
      then (TooManyRequests (ceilSeconds (resetTime e - now)) (maxRequests rl) (windowMs rl), 
            rl\<lparr>store := (store rl)(getKey req \<mapsto> e)\<rparr>)
      else (Next (maxRequests rl) (maxRequests rl - (count e + 1)) (resetTime e),
            rl\<lparr>store := (store rl)(getKey req \<mapsto> e\<lparr>count := count e + 1\<rparr>)\<rparr>))"
  using assms by (simp add: middleware_def Let_def)

lemma middleware_opens_window:
  assumes "case store rl (getKey req) of None \<Rightarrow> True | Some e \<Rightarrow> resetTime e \<le> now"
  shows "middleware req now rl =
     (if 0 \<ge> maxRequests rl
      then (TooManyRequests (ceilSeconds (windowMs rl)) (maxRequests rl) (windowMs rl), 
            rl\<lparr>store := (store rl)(getKey req \<mapsto> \<lparr>count = 0, resetTime = now + windowMs rl\<rparr>)\<rparr>)
      else (Next (maxRequests rl) (maxRequests rl - 1) (now + windowMs rl),
            rl\<lparr>store := (store rl)(getKey req \<mapsto> \<lparr>count = 1, resetTime = now + windowMs rl\<rparr>)\<rparr>))"
  using assms by (auto simp add: middleware_def Let_def split: option.splits)

lemma middleware_other_client:
  assumes "getKey req \<noteq> key"
  shows "store (snd (middleware req now rl)) key = store rl key
       \<and> maxRequests (snd (middleware req now rl)) = maxRequests rl
       \<and> windowMs (snd (middleware req now rl)) = windowMs rl"
  using assms by (simp add: middleware_def Let_def)

lemma cleanup_keeps_counted:
  assumes "store rl key = Some e" and "count e \<noteq> 0"
  shows "store (cleanup now rl) key = Some e \<and> maxRequests (cleanup now rl) = maxRequests rl
       \<and> windowMs (cleanup now rl) = windowMs rl"
  using assms by (simp add: cleanup_def)

text \<open>
  Inside a live window whose count is at least 1: the requests of the client are admitted
  while the count is below the cap, whatever other clients and sweeps do in between.
\<close>

lemma events_in_window:
  assumes "store rl key = Some e" and "1 \<le> count e" and "count e \<le> maxRequests rl"
      and "\<forall>ev \<in> set evs. inWindow key (resetTime e) ev"
  shows "map admitted (responses key evs rl) =
           map (\<lambda>i. count e + int i < maxRequests rl) [0..<length (filter (fromClient key) evs)]
       \<and> store (run evs rl) key =
           Some \<lparr>count = min (maxRequests rl) (count e + int (length (filter (fromClient key) evs))),
                 resetTime = resetTime e\<rparr>"
  using assms
proof (induction evs arbitrary: rl e)
  case Nil
  then show ?case by simp
next
  case (Cons ev evs)
  show ?case
  proof (cases ev)
    case (Cleanup now)
    have k: "store (cleanup now rl) key = Some e \<and> maxRequests (cleanup now rl) = maxRequests rl"
      using cleanup_keeps_counted[of rl key e now] Cons.prems by simp
    have ih: "map admitted (responses key evs (cleanup now rl)) =
           map (\<lambda>i. count e + int i < maxRequests (cleanup now rl)) [0..<length (filter (fromClient key) evs)]
       \<and> store (run evs (cleanup now rl)) key =
           Some \<lparr>count = min (maxRequests (cleanup now rl)) (count e + int (length (filter (fromClient key) evs))),
                 resetTime = resetTime e\<rparr>"
      by (rule Cons.IH) (use Cons.prems k in auto)
    show ?thesis using ih k by (simp add: Cleanup)
  next
    case (Request req now)
    show ?thesis
    proof (cases "getKey req = key")
      case False
      let ?rl1 = "snd (middleware req now rl)"
      have k: "store ?rl1 key = Some e \<and> maxRequests ?rl1 = maxRequests rl"
        using middleware_other_client[OF False, of now rl] Cons.prems by simp
      have ih: "map admitted (responses key evs ?rl1) =
           map (\<lambda>i. count e + int i < maxRequests ?rl1) [0..<length (filter (fromClient key) evs)]
       \<and> store (run evs ?rl1) key =
           Some \<lparr>count = min (maxRequests ?rl1) (count e + int (length (filter (fromClient key) evs))),
                 resetTime = resetTime e\<rparr>"
        by (rule Cons.IH) (use Cons.prems k in auto)
      show ?thesis using ih k False by (simp add: Request)
    next
      case True
      have tw: "now < resetTime e" using Cons.prems(4) True by (simp add: Request)
      have st: "store rl (getKey req) = Some e" using Cons.prems(1) True by simp
      note mw = middleware_in_window[OF st tw]
      show ?thesis
      proof (cases "count e \<ge> maxRequests rl")
        case full: True
        then have ce: "count e = maxRequests rl" using Cons.prems(3) by simp
        let ?rl1 = "rl\<lparr>store := (store rl)(getKey req \<mapsto> e)\<rparr>"
        have m: "middleware req now rl =
            (TooManyRequests (ceilSeconds (resetTime e - now)) (maxRequests rl) (windowMs rl), ?rl1)"
          using mw full by simp
        have ih: "map admitted (responses key evs ?rl1) =
           map (\<lambda>i. count e + int i < maxRequests ?rl1) [0..<length (filter (fromClient key) evs)]
         \<and> store (run evs ?rl1) key =
           Some \<lparr>count = min (maxRequests ?rl1) (count e + int (length (filter (fromClient key) evs))),
                 resetTime = resetTime e\<rparr>"
          by (rule Cons.IH) (use Cons.prems True in auto)
        show ?thesis using ih ce True
          by (simp add: Request m map_upt_Suc del: upt_Suc)
      next
        case room: False
        let ?e1 = "e\<lparr>count := count e + 1\<rparr>"
        let ?rl1 = "rl\<lparr>store := (store rl)(getKey req \<mapsto> ?e1)\<rparr>"
        have m: "middleware req now rl =
            (Next (maxRequests rl) (maxRequests rl - (count e + 1)) (resetTime e), ?rl1)"
          using mw room by simp
        have ih: "map admitted (responses key evs ?rl1) =
           map (\<lambda>i. count ?e1 + int i < maxRequests ?rl1) [0..<length (filter (fromClient key) evs)]
         \<and> store (run evs ?rl1) key =
           Some \<lparr>count = min (maxRequests ?rl1) (count ?e1 + int (length (filter (fromClient key) evs))),
                 resetTime = resetTime ?e1\<rparr>"
          by (rule Cons.IH) (use Cons.prems True room in auto)
        show ?thesis using ih room True
          by (auto simp add: Request m map_upt_Suc ac_simps simp del: upt_Suc)
      qed
    qed
  qed
qed

lemma window_from_opening:
  assumes cap: "1 \<le> maxRequests rl"
      and opens: "case store rl (getKey req) of None \<Rightarrow> True | Some e \<Rightarrow> resetTime e \<le> start"
      and inside: "\<forall>ev \<in> set evs. inWindow (getKey req) (start + windowMs rl) ev"
  shows "map admitted (responses (getKey req) (Request req start # evs) rl) =
           map (\<lambda>i. int i < maxRequests rl) [0..<Suc (length (filter (fromClient (getKey req)) evs))]
       \<and> store (run (Request req start # evs) rl) (getKey req) =
           Some \<lparr>count = min (maxRequests rl) (1 + int (length (filter (fromClient (getKey req)) evs))),
                 resetTime = start + windowMs rl\<rparr>"
proof -
  let ?e1 = "\<lparr>count = 1, resetTime = start + windowMs rl\<rparr>"
  let ?rl1 = "rl\<lparr>store := (store rl)(getKey req \<mapsto> ?e1)\<rparr>"
  have m: "middleware req start rl = (Next (maxRequests rl) (maxRequests rl - 1) (start + windowMs rl), ?rl1)"
    using middleware_opens_window[OF opens] cap by simp
  have w: "map admitted (responses (getKey req) evs ?rl1) =
           map (\<lambda>i. count ?e1 + int i < maxRequests ?rl1) [0..<length (filter (fromClient (getKey req)) evs)]
       \<and> store (run evs ?rl1) (getKey req) =
           Some \<lparr>count = min (maxRequests ?rl1) (count ?e1 + int (length (filter (fromClient (getKey req)) evs))),
                 resetTime = resetTime ?e1\<rparr>"
    by (rule events_in_window) (use cap inside in auto)
  show ?thesis using w cap
    by (auto simp add: m map_upt_Suc ac_simps simp del: upt_Suc)
qed

text \<open>
  C2, as the specification states it, fails for a cap of 0, which the constructor
  accepts: the request that arrives when \<open>resetTime\<close> is reached resets the window and is
  denied, and the count is 0 afterwards, not 1.
\<close>

theorem zero_cap_denies_after_reset:
  "store (snd (middleware alice 0 (newRateLimiter 1000 0))) ''10.0.0.1:curl''
     = Some \<lparr>count = 0, resetTime = 1000\<rparr>
   \<and> fst (middleware alice 1000 (snd (middleware alice 0 (newRateLimiter 1000 0))))
     = TooManyRequests 1 0 1000
   \<and> store (snd (middleware alice 1000 (snd (middleware alice 0 (newRateLimiter 1000 0))))) ''10.0.0.1:curl''
     = Some \<lparr>count = 0, resetTime = 2000\<rparr>"
  by (simp add: newRateLimiter_def middleware_def getKey_def orElse_def alice_def ceilSeconds_def Let_def)

text \<open>
  C2, amended: for a cap of at least 1. A request that finds no entry for its client, or
  an entry whose \<open>resetTime\<close> has been reached, opens a window of length \<open>windowMs\<close>.
  That request and the requests of the same client that follow inside the window, with
  requests of other clients and sweeps in between at any time, are admitted exactly while
  fewer than \<open>maxRequests\<close> have been admitted: request number \<open>i\<close> of the client
  (from 0) is admitted if and only if \<open>i < maxRequests\<close>, so the first \<open>maxRequests\<close>
  are admitted and the next one is denied. The count afterwards is the number of requests
  the client made, capped at \<open>maxRequests\<close>: every admission adds one, a denial adds
  nothing. With no later event this is the reset: the request is admitted, the count is 1
  and \<open>resetTime\<close> is \<open>now + windowMs\<close>. With a cap of 0 or less the request that
  opens the window is denied and leaves the count at 0.
\<close>

theorem window_admission:
  "(1 \<le> maxRequests rl
    \<and> (case store rl (getKey req) of None \<Rightarrow> True | Some e \<Rightarrow> resetTime e \<le> start)
    \<and> (\<forall>ev \<in> set evs. inWindow (getKey req) (start + windowMs rl) ev) \<longrightarrow>
      map admitted (responses (getKey req) (Request req start # evs) rl) =
        map (\<lambda>i. int i < maxRequests rl) [0..<Suc (length (filter (fromClient (getKey req)) evs))]
      \<and> store (run (Request req start # evs) rl) (getKey req) =
        Some \<lparr>count = min (maxRequests rl) (1 + int (length (filter (fromClient (getKey req)) evs))),
              resetTime = start + windowMs rl\<rparr>)
   \<and> (maxRequests rl \<le> 0
    \<and> (case store rl (getKey req) of None \<Rightarrow> True | Some e \<Rightarrow> resetTime e \<le> start) \<longrightarrow>
      \<not> admitted (fst (middleware req start rl))
      \<and> store (snd (middleware req start rl)) (getKey req) =
        Some \<lparr>count = 0, resetTime = start + windowMs rl\<rparr>)"
proof -
  have a: "1 \<le> maxRequests rl
    \<and> (case store rl (getKey req) of None \<Rightarrow> True | Some e \<Rightarrow> resetTime e \<le> start)
    \<and> (\<forall>ev \<in> set evs. inWindow (getKey req) (start + windowMs rl) ev) \<longrightarrow>
      map admitted (responses (getKey req) (Request req start # evs) rl) =
        map (\<lambda>i. int i < maxRequests rl) [0..<Suc (length (filter (fromClient (getKey req)) evs))]
      \<and> store (run (Request req start # evs) rl) (getKey req) =
        Some \<lparr>count = min (maxRequests rl) (1 + int (length (filter (fromClient (getKey req)) evs))),
              resetTime = start + windowMs rl\<rparr>"
    using window_from_opening[where rl = rl and req = req and start = start and evs = evs] by blast
  have b: "maxRequests rl \<le> 0
    \<and> (case store rl (getKey req) of None \<Rightarrow> True | Some e \<Rightarrow> resetTime e \<le> start) \<longrightarrow>
      \<not> admitted (fst (middleware req start rl))
      \<and> store (snd (middleware req start rl)) (getKey req) =
        Some \<lparr>count = 0, resetTime = start + windowMs rl\<rparr>"
    using middleware_opens_window[where rl = rl and req = req and now = start] by auto
  show ?thesis using a b by blast
qed

theorem window_admission_witness:
  "map admitted (responses ''10.0.0.1:curl''
       [Request alice 0, Request bob 5, Request alice 10, Cleanup 15, Request bob 16, Request alice 20]
       (newRateLimiter 1000 2)) = [True, True, False]
   \<and> store (run [Request alice 0, Request bob 5, Request alice 10, Cleanup 15, Request bob 16, Request alice 20]
       (newRateLimiter 1000 2)) ''10.0.0.1:curl'' = Some \<lparr>count = 2, resetTime = 1000\<rparr>
   \<and> map admitted (responses ''10.0.0.1:curl''
       [Request alice 1000, Request bob 1001, Cleanup 1500, Request alice 1999, Request alice 1999]
       (run [Request alice 0, Request bob 5, Request alice 10, Cleanup 15, Request bob 16, Request alice 20]
          (newRateLimiter 1000 2))) = [True, True, False]
   \<and> store (run [Request alice 1000, Request bob 1001, Cleanup 1500, Request alice 1999, Request alice 1999]
       (run [Request alice 0, Request bob 5, Request alice 10, Cleanup 15, Request bob 16, Request alice 20]
          (newRateLimiter 1000 2))) ''10.0.0.1:curl'' = Some \<lparr>count = 2, resetTime = 2000\<rparr>
   \<and> store (run [Request alice 1000, Request bob 1001, Cleanup 1500, Request alice 1999, Request alice 1999]
       (run [Request alice 0, Request bob 5, Request alice 10, Cleanup 15, Request bob 16, Request alice 20]
          (newRateLimiter 1000 2))) ''10.0.0.2:unknown'' = Some \<lparr>count = 2, resetTime = 1005\<rparr>
   \<and> \<not> admitted (fst (middleware alice 1000 (snd (middleware alice 0 (newRateLimiter 1000 0)))))"
  using window_admission[where rl = "newRateLimiter 1000 2" and req = alice and start = 0
      and evs = "[Request bob 5, Request alice 10, Cleanup 15, Request bob 16, Request alice 20]"]
    window_admission[where
      rl = "run [Request alice 0, Request bob 5, Request alice 10, Cleanup 15, Request bob 16, Request alice 20]
              (newRateLimiter 1000 2)"
      and req = alice and start = 1000
      and evs = "[Request bob 1001, Cleanup 1500, Request alice 1999, Request alice 1999]"]
    window_admission[where rl = "snd (middleware alice 0 (newRateLimiter 1000 0))" and req = alice
      and start = 1000 and evs = "[]"]
  by (simp add: newRateLimiter_def middleware_def cleanup_def getKey_def orElse_def alice_def bob_def
        ceilSeconds_def Let_def)

text \<open>Facts about every state a limiter can reach from its construction.\<close>

lemma step_params: "maxRequests (step ev rl) = maxRequests rl \<and> windowMs (step ev rl) = windowMs rl"
  by (cases ev) (auto simp add: middleware_def cleanup_def Let_def)

lemma step_nonneg:
  assumes "\<forall>k e. store rl k = Some e \<longrightarrow> 0 \<le> count e"
  shows "\<forall>k e. store (step ev rl) k = Some e \<longrightarrow> 0 \<le> count e"
proof (cases ev)
  case (Request req now)
  show ?thesis using assms unfolding Request
    by (auto simp add: middleware_def Let_def split: option.splits if_splits)
next
  case (Cleanup now)
  show ?thesis using assms unfolding Cleanup
    by (auto simp add: cleanup_def split: option.splits if_splits)
qed

lemma run_nonneg:
  "\<forall>k e. store rl k = Some e \<longrightarrow> 0 \<le> count e \<Longrightarrow>
   \<forall>k e. store (run evs rl) k = Some e \<longrightarrow> 0 \<le> count e"
proof (induction evs arbitrary: rl)
  case Nil then show ?case by simp
next
  case (Cons ev evs)
  show ?case using Cons.IH[OF step_nonneg[OF Cons.prems]] by simp
qed

lemma reachable_nonneg:
  "store (run evs (newRateLimiter w m)) k = Some e \<Longrightarrow> 0 \<le> count e"
  using run_nonneg[of "newRateLimiter w m" evs] by (simp add: newRateLimiter_def)

lemma admission_leaves_entry:
  assumes "\<forall>k e. store rl k = Some e \<longrightarrow> 0 \<le> count e"
      and "admitted (fst (middleware req now rl))"
  shows "1 \<le> maxRequests (snd (middleware req now rl)) \<and>
         (\<exists>e. store (snd (middleware req now rl)) (getKey req) = Some e \<and> 1 \<le> count e)"
proof (cases "store rl (getKey req)")
  case None
  then show ?thesis using assms(2)
    by (auto simp add: middleware_def Let_def split: if_splits)
next
  case (Some e)
  then have "0 \<le> count e" using assms(1) by blast
  then show ?thesis using assms(2) Some
    by (auto simp add: middleware_def Let_def split: if_splits)
qed

lemma step_keeps_entry:
  assumes "1 \<le> maxRequests rl" and "store rl k = Some e" and "1 \<le> count e"
  shows "1 \<le> maxRequests (step ev rl) \<and> (\<exists>e'. store (step ev rl) k = Some e' \<and> 1 \<le> count e')"
proof (cases ev)
  case (Request req now)
  show ?thesis using assms unfolding Request
    by (auto simp add: middleware_def Let_def split: option.splits if_splits)
next
  case (Cleanup now)
  show ?thesis using assms unfolding Cleanup
    by (auto simp add: cleanup_def)
qed

lemma run_keeps_entry:
  "1 \<le> maxRequests rl \<Longrightarrow> store rl k = Some e \<Longrightarrow> 1 \<le> count e \<Longrightarrow>
   \<exists>e'. store (run evs rl) k = Some e' \<and> 1 \<le> count e'"
proof (induction evs arbitrary: rl e)
  case Nil then show ?case by simp
next
  case (Cons ev evs)
  from step_keeps_entry[OF Cons.prems, of ev]
  obtain e' where "1 \<le> maxRequests (step ev rl)" "store (step ev rl) k = Some e'" "1 \<le> count e'"
    by blast
  from Cons.IH[OF this] show ?case by simp
qed

lemma step_idle_entry:
  assumes "store rl k = Some e" and "count e \<noteq> 0" and "\<not> fromClient k ev"
  shows "store (step ev rl) k = Some e"
proof (cases ev)
  case (Request req now)
  show ?thesis using assms unfolding Request
    by (auto simp add: middleware_def Let_def split: option.splits if_splits)
next
  case (Cleanup now)
  show ?thesis using assms unfolding Cleanup
    by (auto simp add: cleanup_def)
qed

lemma run_idle_entry:
  "store rl k = Some e \<Longrightarrow> count e \<noteq> 0 \<Longrightarrow> \<forall>ev \<in> set evs. \<not> fromClient k ev \<Longrightarrow>
   store (run evs rl) k = Some e"
proof (induction evs arbitrary: rl)
  case Nil then show ?case by simp
next
  case (Cons ev evs)
  have "store (step ev rl) k = Some e"
    using step_idle_entry[OF Cons.prems(1,2)] Cons.prems(3) by simp
  from Cons.IH[OF this Cons.prems(2)] Cons.prems(3) show ?case by simp
qed

lemma cleanup_deletes:
  "(store (cleanup t lim) k = None) =
     (case store lim k of None \<Rightarrow> True | Some e \<Rightarrow> t \<ge> resetTime e \<and> count e = 0)"
  by (simp add: cleanup_def split: option.splits)

text \<open>
  C10. Take any limiter reached from its construction and any request that it admits.
  Whatever follows (requests of any client, sweeps at any time), the entry of the
  admitted client is still in the store and its count is at least 1; and when none of
  the later requests comes from that client, the entry is exactly as the admission left
  it, however long ago its window expired. The sweep removes exactly the entries whose
  window has expired and whose count is 0.
\<close>

theorem admitted_entry_never_swept:
  assumes "admitted (fst (middleware req now (run before (newRateLimiter w m))))"
  shows "(\<exists>e. store (run evs (snd (middleware req now (run before (newRateLimiter w m))))) (getKey req) = Some e
              \<and> 1 \<le> count e)
       \<and> ((\<forall>ev \<in> set evs. \<not> fromClient (getKey req) ev) \<longrightarrow>
            store (run evs (snd (middleware req now (run before (newRateLimiter w m))))) (getKey req)
              = store (snd (middleware req now (run before (newRateLimiter w m)))) (getKey req))
       \<and> ((store (cleanup t lim) k = None) =
            (case store lim k of None \<Rightarrow> True | Some e \<Rightarrow> t \<ge> resetTime e \<and> count e = 0))"
proof -
  let ?rl = "run before (newRateLimiter w m)"
  let ?rl1 = "snd (middleware req now ?rl)"
  have nn: "\<forall>k e. store ?rl k = Some e \<longrightarrow> 0 \<le> count e"
    using reachable_nonneg by blast
  from admission_leaves_entry[OF nn assms]
  obtain e where cap: "1 \<le> maxRequests ?rl1" and e: "store ?rl1 (getKey req) = Some e" and c: "1 \<le> count e"
    by blast
  have a: "\<exists>e'. store (run evs ?rl1) (getKey req) = Some e' \<and> 1 \<le> count e'"
    by (rule run_keeps_entry[OF cap e c])
  have b: "(\<forall>ev \<in> set evs. \<not> fromClient (getKey req) ev) \<longrightarrow> store (run evs ?rl1) (getKey req) = store ?rl1 (getKey req)"
    using run_idle_entry[OF e, of evs] c e by auto
  have c: "(store (cleanup t lim) k = None) =
            (case store lim k of None \<Rightarrow> True | Some e \<Rightarrow> t \<ge> resetTime e \<and> count e = 0)"
    by (rule cleanup_deletes)
  show ?thesis using a b c by blast
qed

theorem admitted_entry_never_swept_witness:
  "admitted (fst (middleware \<lparr>ip = Some ''10.0.0.1'', remoteAddress = None, userAgent = Some ''curl''\<rparr> 0
       (run [] (newRateLimiter 1000 2))))
   \<and> store (run [Cleanup 5000, Request \<lparr>ip = Some ''10.0.0.2'', remoteAddress = None, userAgent = None\<rparr> 6000, Cleanup 100000]
        (snd (middleware \<lparr>ip = Some ''10.0.0.1'', remoteAddress = None, userAgent = Some ''curl''\<rparr> 0
          (run [] (newRateLimiter 1000 2))))) ''10.0.0.1:curl''
      = Some \<lparr>count = 1, resetTime = 1000\<rparr>"
  using admitted_entry_never_swept[where req = "\<lparr>ip = Some ''10.0.0.1'', remoteAddress = None, userAgent = Some ''curl''\<rparr>"
      and now = 0 and before = "[]" and w = 1000 and m = 2
      and evs = "[Cleanup 5000, Request \<lparr>ip = Some ''10.0.0.2'', remoteAddress = None, userAgent = None\<rparr> 6000, Cleanup 100000]"]
  by (simp add: newRateLimiter_def middleware_def cleanup_def getKey_def orElse_def Let_def)

section \<open>Properties of the where clause\<close>

lemma dimension_absent: "dimension f None = [] \<and> dimension f (Some []) = []"
  by (simp add: dimension_def)

lemma dimension_single: "dimension f (Some [v]) = [Equals f v]"
  by (simp add: dimension_def)

lemma dimension_several: "length vs > 1 \<Longrightarrow> dimension f (Some vs) = [Or (map (Equals f) vs)]"
  by (cases vs) (simp_all add: dimension_def)

lemma conditions_type_then_symbol:
  "conditions options = dimension ''type'' (type options) @ dimension ''symbol'' (symbols options)"
  by (simp add: conditions_def timeRangeConditions_def split: option.splits)

lemma whereClause_cases:
  "whereClause options =
     (case conditions options of [] \<Rightarrow> None | [c] \<Rightarrow> Some c | c # d # cs \<Rightarrow> Some (And (c # d # cs)))"
  by (simp add: whereClause_def Let_def split: list.splits)

text \<open>
  C8. The where clause is absent for a filter with no type, no time range and no symbols
  (and whenever no condition was pushed); it is the condition itself when exactly one was
  pushed, and the \<open>$and\<close> of the conditions when more than one was. Without a time
  range the conditions are the one of the types followed by the one of the symbols. A
  dimension that is missing or empty pushes nothing, one value pushes the bare pair and
  several values push the \<open>$or\<close> of the pairs. The filter with types \<open>["crypto"]\<close>
  and symbols \<open>["BTC", "ETH"]\<close> gives
  \<open>And [Equals type crypto, Or [Equals symbol BTC, Equals symbol ETH]]\<close>.
\<close>

theorem where_clause_shape:
  "(type options = None \<and> timeRange options = None \<and> symbols options = None \<longrightarrow> whereClause options = None)
   \<and> (conditions options = [] \<longrightarrow> whereClause options = None)
   \<and> (conditions options = [c] \<longrightarrow> whereClause options = Some c)
   \<and> (length (conditions options) > 1 \<longrightarrow> whereClause options = Some (And (conditions options)))
   \<and> (timeRange options = None \<longrightarrow>
        conditions options = dimension ''type'' (type options) @ dimension ''symbol'' (symbols options))
   \<and> dimension f None = [] \<and> dimension f (Some []) = []
   \<and> dimension f (Some [v]) = [Equals f v]
   \<and> (length vs > 1 \<longrightarrow> dimension f (Some vs) = [Or (map (\<lambda>x. Equals f x) vs)])
   \<and> whereClause \<lparr>type = Some [''crypto''], limit = n, timeRange = None, symbols = Some [''BTC'', ''ETH'']\<rparr>
       = Some (And [Equals ''type'' ''crypto'', Or [Equals ''symbol'' ''BTC'', Equals ''symbol'' ''ETH'']])"
proof -
  have a: "type options = None \<and> timeRange options = None \<and> symbols options = None \<longrightarrow> whereClause options = None"
    by (simp add: whereClause_cases conditions_type_then_symbol dimension_absent)
  have b: "conditions options = [] \<longrightarrow> whereClause options = None"
    by (simp add: whereClause_cases)
  have c: "conditions options = [c] \<longrightarrow> whereClause options = Some c"
    by (simp add: whereClause_cases)
  have d: "length (conditions options) > 1 \<longrightarrow> whereClause options = Some (And (conditions options))"
    by (simp add: whereClause_def Let_def)
  have e: "timeRange options = None \<longrightarrow>
        conditions options = dimension ''type'' (type options) @ dimension ''symbol'' (symbols options)"
    by (simp add: conditions_type_then_symbol)
  have g: "length vs > 1 \<longrightarrow> dimension f (Some vs) = [Or (map (\<lambda>x. Equals f x) vs)]"
    by (simp add: dimension_several)
  have h: "whereClause \<lparr>type = Some [''crypto''], limit = n, timeRange = None, symbols = Some [''BTC'', ''ETH'']\<rparr>
       = Some (And [Equals ''type'' ''crypto'', Or [Equals ''symbol'' ''BTC'', Equals ''symbol'' ''ETH'']])"
    by (simp add: whereClause_def conditions_def timeRangeConditions_def dimension_def Let_def)
  show ?thesis using a b c d e g h dimension_absent[of f] dimension_single[of f v] by blast
qed

theorem where_clause_shape_witness:
  "whereClause \<lparr>type = None, limit = None, timeRange = None, symbols = None\<rparr> = None
   \<and> whereClause \<lparr>type = Some [''crypto''], limit = None, timeRange = None, symbols = None\<rparr>
       = Some (Equals ''type'' ''crypto'')
   \<and> whereClause \<lparr>type = None, limit = None, timeRange = None, symbols = Some [''BTC'', ''ETH'']\<rparr>
       = Some (Or [Equals ''symbol'' ''BTC'', Equals ''symbol'' ''ETH''])
   \<and> whereClause \<lparr>type = Some [''crypto'', ''news''], limit = Some 5, timeRange = None, symbols = Some [''BTC'']\<rparr>
       = Some (And [Or [Equals ''type'' ''crypto'', Equals ''type'' ''news''], Equals ''symbol'' ''BTC''])"
  using where_clause_shape[where options = "\<lparr>type = None, limit = None, timeRange = None, symbols = None\<rparr>"]
    where_clause_shape[where options = "\<lparr>type = Some [''crypto''], limit = None, timeRange = None, symbols = None\<rparr>"
       and c = "Equals ''type'' ''crypto''" and f = "''type''" and v = "''crypto''"]
    where_clause_shape[where options = "\<lparr>type = None, limit = None, timeRange = None, symbols = Some [''BTC'', ''ETH'']\<rparr>"
       and c = "Or [Equals ''symbol'' ''BTC'', Equals ''symbol'' ''ETH'']" and f = "''symbol''" and vs = "[''BTC'', ''ETH'']"]
    where_clause_shape[where options = "\<lparr>type = Some [''crypto'', ''news''], limit = Some 5, timeRange = None, symbols = Some [''BTC'']\<rparr>"
       and f = "''type''" and vs = "[''crypto'', ''news'']"]
  by (simp add: whereClause_def conditions_def timeRangeConditions_def dimension_def Let_def)

text \<open>
  C9. The where clause is a function of the filter's types, time range and symbols
  alone: two filters that agree on them give the same tree. The children of an \<open>$or\<close>
  are the pairs of the values in the order of the input (child \<open>i\<close> is the pair of
  value \<open>i\<close>), and the children of an \<open>$and\<close> are the condition of the types
  followed by the condition of the symbols.
\<close>

theorem where_clause_deterministic:
  "(type f1 = type f2 \<and> timeRange f1 = timeRange f2 \<and> symbols f1 = symbols f2 \<longrightarrow>
      whereClause f1 = whereClause f2)
   \<and> (length vs > 1 \<longrightarrow>
        (\<exists>cs. dimension f (Some vs) = [Or cs] \<and> length cs = length vs
              \<and> (\<forall>i < length vs. cs ! i = Equals f (vs ! i))))
   \<and> conditions f1 = dimension ''type'' (type f1) @ dimension ''symbol'' (symbols f1)
   \<and> (length (conditions f1) > 1 \<longrightarrow> whereClause f1 = Some (And (conditions f1)))"
proof -
  have a: "type f1 = type f2 \<and> timeRange f1 = timeRange f2 \<and> symbols f1 = symbols f2 \<longrightarrow>
      whereClause f1 = whereClause f2"
    by (simp add: whereClause_def conditions_def)
  have b: "length vs > 1 \<longrightarrow>
        (\<exists>cs. dimension f (Some vs) = [Or cs] \<and> length cs = length vs
              \<and> (\<forall>i < length vs. cs ! i = Equals f (vs ! i)))"
    by (simp add: dimension_several)
  have d: "length (conditions f1) > 1 \<longrightarrow> whereClause f1 = Some (And (conditions f1))"
    by (simp add: whereClause_def Let_def)
  show ?thesis using a b d conditions_type_then_symbol[of f1] by blast
qed

theorem where_clause_deterministic_witness:
  "whereClause \<lparr>type = Some [''news'', ''crypto''], limit = Some 5, timeRange = None, symbols = Some [''ETH'', ''BTC'']\<rparr>
     = whereClause \<lparr>type = Some [''news'', ''crypto''], limit = Some 10, timeRange = None, symbols = Some [''ETH'', ''BTC'']\<rparr>
   \<and> whereClause \<lparr>type = Some [''news'', ''crypto''], limit = Some 5, timeRange = None, symbols = Some [''ETH'', ''BTC'']\<rparr>
     = Some (And [Or [Equals ''type'' ''news'', Equals ''type'' ''crypto''],
                  Or [Equals ''symbol'' ''ETH'', Equals ''symbol'' ''BTC'']])"
  using where_clause_deterministic[where
      ?f1.0 = "\<lparr>type = Some [''news'', ''crypto''], limit = Some 5, timeRange = None, symbols = Some [''ETH'', ''BTC'']\<rparr>"
      and ?f2.0 = "\<lparr>type = Some [''news'', ''crypto''], limit = Some 10, timeRange = None, symbols = Some [''ETH'', ''BTC'']\<rparr>"
      and f = "''type''" and vs = "[''news'', ''crypto'']"]
  by (simp add: whereClause_def conditions_def timeRangeConditions_def dimension_def Let_def)

text \<open>
  C3. A filter that has a time range: the source pushes no condition for it. With the
  range alone the list of conditions is empty and no where clause is passed to the
  store; next to one type the clause is the bare type pair, with no bound on the
  timestamp.
\<close>

theorem time_range_not_compiled:
  "conditions \<lparr>type = None, limit = None,
       timeRange = Some \<lparr>rangeStart = 1704067200000, rangeEnd = 1704153600000\<rparr>, symbols = None\<rparr> = []
   \<and> whereClause \<lparr>type = None, limit = None,
       timeRange = Some \<lparr>rangeStart = 1704067200000, rangeEnd = 1704153600000\<rparr>, symbols = None\<rparr> = None
   \<and> whereClause \<lparr>type = Some [''news''], limit = Some 50,
       timeRange = Some \<lparr>rangeStart = 1704067200000, rangeEnd = 1704153600000\<rparr>, symbols = None\<rparr>
      = Some (Equals ''type'' ''news'')"
  by (simp add: whereClause_def conditions_def timeRangeConditions_def dimension_def Let_def)

section \<open>Properties of the cache service\<close>

lemma command_trace: "trace (snd (command f w)) = trace w"
  by (auto simp add: command_def split: prod.splits bool.splits list.splits)

lemma command_isConnected: "isConnected (snd (command f w)) = isConnected w"
  by (auto simp add: command_def split: prod.splits bool.splits list.splits)

lemma command_fault: "faults w = True # fs \<Longrightarrow> command f w = (Inl (Error ''redis''), w\<lparr>faults := fs\<rparr>)"
  by (simp add: command_def)

lemma get_returns:
  "\<exists>c w1. get key w = (Inr c, w1) \<and> trace w1 = trace w @ [CacheGet key] \<and> isConnected w1 = isConnected w"
  by (auto simp add: get_def client_get_def andThen_def tryCatch_def ret_def record_effect_def command_def
      split: prod.splits sum.splits list.splits bool.splits)

lemma set_returns:
  "\<exists>b w1. set' key v ttl w = (Inr b, w1) \<and> trace w1 = trace w @ [CacheSet key v ttl] \<and> isConnected w1 = isConnected w"
  by (auto simp add: set'_def client_set_def client_setEx_def andThen_def tryCatch_def ret_def record_effect_def command_def
      split: prod.splits sum.splits list.splits bool.splits option.splits)

lemma del_returns:
  "\<exists>b w1. del key w = (Inr b, w1) \<and> trace w1 = trace w @ [CacheDel key] \<and> isConnected w1 = isConnected w"
  by (auto simp add: del_def client_del_def andThen_def tryCatch_def ret_def record_effect_def command_def
      split: prod.splits sum.splits list.splits bool.splits option.splits)

lemma exists_returns:
  "\<exists>b w1. exists key w = (Inr b, w1) \<and> trace w1 = trace w @ [CacheExists key] \<and> isConnected w1 = isConnected w"
  by (auto simp add: exists_def client_exists_def andThen_def tryCatch_def ret_def record_effect_def command_def
      split: prod.splits sum.splits list.splits bool.splits option.splits)

lemma keys_returns:
  "\<exists>b w1. keys glob pattern w = (Inr b, w1) \<and> trace w1 = trace w @ [CacheKeys pattern] \<and> isConnected w1 = isConnected w"
  by (auto simp add: keys_def client_keys_def andThen_def tryCatch_def ret_def record_effect_def command_def
      split: prod.splits sum.splits list.splits bool.splits option.splits)

lemma flushPattern_returns:
  "\<exists>b w1. flushPattern glob pattern w = (Inr b, w1)"
  by (auto simp add: flushPattern_def keys_def client_del_def client_keys_def andThen_def tryCatch_def ret_def record_effect_def command_def
      split: prod.splits sum.splits list.splits bool.splits option.splits)

lemma disconnected_results:
  assumes "\<not> isConnected w"
  shows "fst (get key w) = Inr None \<and> fst (set' key v ttl w) = Inr False \<and> fst (del key w) = Inr False
       \<and> fst (exists key w) = Inr False \<and> fst (keys glob pattern w) = Inr []
       \<and> fst (flushPattern glob pattern w) = Inr 0"
  using assms
  by (simp add: get_def set'_def del_def exists_def keys_def flushPattern_def
        andThen_def ret_def record_effect_def)

lemma rejected_results:
  assumes "isConnected w" and "faults w = True # fs"
  shows "fst (get key w) = Inr None \<and> fst (set' key v ttl w) = Inr False \<and> fst (del key w) = Inr False
       \<and> fst (exists key w) = Inr False \<and> fst (keys glob pattern w) = Inr []
       \<and> fst (flushPattern glob pattern w) = Inr 0"
  using assms
  by (simp add: get_def set'_def del_def exists_def keys_def flushPattern_def
        client_get_def client_set_def client_setEx_def client_del_def client_exists_def client_keys_def
        andThen_def tryCatch_def ret_def record_effect_def command_def split: option.splits)

lemma flush_del_rejected:
  assumes "isConnected w" and "faults w = False # True # fs"
  shows "fst (flushPattern glob pattern w) = Inr 0"
  using assms
  by (simp add: keys_def flushPattern_def client_del_def client_keys_def
        andThen_def tryCatch_def ret_def record_effect_def command_def split: option.splits)

text \<open>
  C7. Each of the six cache operations returns a value, in every world. When the
  connection flag is down, or when the Redis command it sends is rejected, \<open>get\<close>
  returns \<open>null\<close>, \<open>set\<close>, \<open>del\<close> and \<open>exists\<close> return \<open>false\<close>, \<open>keys\<close>
  returns the empty list and \<open>flushPattern\<close> returns 0; \<open>flushPattern\<close> returns 0
  as well when its \<open>KEYS\<close> command succeeds and its \<open>DEL\<close> command is rejected.
\<close>

theorem cache_operations_never_raise:
  "(\<exists>r. fst (get key w) = Inr r) \<and> (\<exists>r. fst (set' key v ttl w) = Inr r)
   \<and> (\<exists>r. fst (del key w) = Inr r) \<and> (\<exists>r. fst (exists key w) = Inr r)
   \<and> (\<exists>r. fst (keys glob pattern w) = Inr r) \<and> (\<exists>r. fst (flushPattern glob pattern w) = Inr r)
   \<and> (\<not> isConnected w \<or> (\<exists>fs. faults w = True # fs) \<longrightarrow>
        fst (get key w) = Inr None \<and> fst (set' key v ttl w) = Inr False
        \<and> fst (del key w) = Inr False \<and> fst (exists key w) = Inr False
        \<and> fst (keys glob pattern w) = Inr [] \<and> fst (flushPattern glob pattern w) = Inr 0)
   \<and> ((\<exists>fs. faults w = False # True # fs) \<longrightarrow> fst (flushPattern glob pattern w) = Inr 0)"
proof -
  have total: "(\<exists>r. fst (get key w) = Inr r) \<and> (\<exists>r. fst (set' key v ttl w) = Inr r)
   \<and> (\<exists>r. fst (del key w) = Inr r) \<and> (\<exists>r. fst (exists key w) = Inr r)
   \<and> (\<exists>r. fst (keys glob pattern w) = Inr r) \<and> (\<exists>r. fst (flushPattern glob pattern w) = Inr r)"
    using get_returns[of key w] set_returns[of key v ttl w] del_returns[of key w]
      exists_returns[of key w] keys_returns[of glob pattern w] flushPattern_returns[of glob pattern w]
    by (metis fst_conv)
  have down: "\<not> isConnected w \<or> (\<exists>fs. faults w = True # fs) \<longrightarrow>
        fst (get key w) = Inr None \<and> fst (set' key v ttl w) = Inr False
        \<and> fst (del key w) = Inr False \<and> fst (exists key w) = Inr False
        \<and> fst (keys glob pattern w) = Inr [] \<and> fst (flushPattern glob pattern w) = Inr 0"
    using disconnected_results[of w key v ttl glob pattern] rejected_results[of w _ key v ttl glob pattern]
    by blast
  have second: "(\<exists>fs. faults w = False # True # fs) \<longrightarrow> fst (flushPattern glob pattern w) = Inr 0"
    using disconnected_results[of w key v ttl glob pattern] flush_del_rejected[of w _ glob pattern]
    by blast
  show ?thesis using total down second by blast
qed

theorem cache_operations_never_raise_witness:
  "fst (get ''k'' \<lparr>isConnected = False, entries = [(''k'', ''v'', None)], faults = [], trace = []\<rparr>) = Inr None
   \<and> fst (get ''k'' \<lparr>isConnected = True, entries = [(''k'', ''v'', None)], faults = [True], trace = []\<rparr>) = Inr None
   \<and> fst (get ''k'' \<lparr>isConnected = True, entries = [(''k'', ''v'', None)], faults = [], trace = []\<rparr>) = Inr (Some ''v'')
   \<and> fst (flushPattern (\<lambda>p k. True) ''*'' \<lparr>isConnected = True, entries = [(''k'', ''v'', None)], faults = [False, True], trace = []\<rparr>) = Inr 0
   \<and> fst (flushPattern (\<lambda>p k. True) ''*'' \<lparr>isConnected = True, entries = [(''k'', ''v'', None)], faults = [], trace = []\<rparr>) = Inr 1"
  using cache_operations_never_raise[where w = "\<lparr>isConnected = False, entries = [(''k'', ''v'', None)], faults = [], trace = []\<rparr>" and key = "''k''"]
    cache_operations_never_raise[where w = "\<lparr>isConnected = True, entries = [(''k'', ''v'', None)], faults = [True], trace = []\<rparr>" and key = "''k''"]
    cache_operations_never_raise[where w = "\<lparr>isConnected = True, entries = [(''k'', ''v'', None)], faults = [False, True], trace = []\<rparr>" and glob = "\<lambda>p k. True" and pattern = "''*''"]
  by (simp add: get_def flushPattern_def keys_def client_get_def client_keys_def client_del_def without_def
       andThen_def tryCatch_def ret_def record_effect_def command_def)


text \<open>The definitions unfolded to run the services on the example inputs.\<close>

lemmas eval_defs = runOnce_def scheduleTask_def startTask_def ingestStocks_def ingestion_def
        ingestNews_def ingestCrypto_def ingestTrends_def ingestRates_def ingestEconomicData_def
        fetchNews_def fetchCryptoData_def fetchTrendsData_def fetchCentralBankRates_def fetchEconomicIndicators_def
        ingest_def cacheKey_def markerPresent_def
        fetchStockData_def fetch_def addData_def cache_ttl_def get_def set'_def del_def client_get_def client_setEx_def
        client_set_def client_del_def getOrSet_def call_fetcher_def throw_def
        without_def andThen_def tryCatch_def ret_def pure_def record_effect_def command_def truthy_def rejected_def
        exampleItem_def envItems_def envNewsFails_def envEmpty_def envStoreFails_def freshWorld_def markedWorld_def textSerializer_def
        isMarketHours_def

section \<open>Properties of \<open>getOrSet\<close>\<close>

lemma call_fetcher_value:
  "call_fetcher (Inr v) w = (Inr v, w\<lparr>trace := trace w @ [Fetcher]\<rparr>)"
  by (simp add: call_fetcher_def andThen_def record_effect_def ret_def)

lemma getOrSet_miss:
  assumes g: "fst (get key w) = Inr cached" and miss: "\<not> truthy cached"
      and enc: "serialize ser v = Inr s"
  shows "fst (getOrSet key (Inr v) ttl ser w) = Inr v
       \<and> trace (snd (getOrSet key (Inr v) ttl ser w)) = trace w @ [CacheGet key, Fetcher, CacheSet key s ttl]"
proof -
  obtain c w1 where g1: "get key w = (Inr c, w1)" and t1: "trace w1 = trace w @ [CacheGet key]"
    using get_returns[of key w] by blast
  have c: "c = cached" using g g1 by simp
  let ?w2 = "w1\<lparr>trace := trace w1 @ [Fetcher]\<rparr>"
  obtain b w3 where s3: "set' key s ttl ?w2 = (Inr b, w3)" and t3: "trace w3 = trace ?w2 @ [CacheSet key s ttl]"
    using set_returns[of key s ttl ?w2] by blast
  have "getOrSet key (Inr v) ttl ser w = (Inr v, w3)"
    using miss c enc s3
    by (auto simp add: getOrSet_def andThen_def g1 truthy_def ret_def call_fetcher_value pure_def
        split: option.splits)
  then show ?thesis using t1 t3 by simp
qed

lemma getOrSet_corrupt:
  assumes g: "fst (get key w) = Inr (Some c)" and ne: "c \<noteq> []"
      and dec: "deserialize ser c = Inl e"
      and enc: "serialize ser v = Inr s"
  shows "fst (getOrSet key (Inr v) ttl ser w) = Inr v
       \<and> trace (snd (getOrSet key (Inr v) ttl ser w))
           = trace w @ [CacheGet key, CacheDel key, Fetcher, CacheSet key s ttl]"
proof -
  obtain c' w1 where g1: "get key w = (Inr c', w1)" and t1: "trace w1 = trace w @ [CacheGet key]"
    using get_returns[of key w] by blast
  have c: "c' = Some c" using g g1 by simp
  obtain d wd where d1: "del key w1 = (Inr d, wd)" and td: "trace wd = trace w1 @ [CacheDel key]"
    using del_returns[of key w1] by blast
  let ?w2 = "wd\<lparr>trace := trace wd @ [Fetcher]\<rparr>"
  obtain b w3 where s3: "set' key s ttl ?w2 = (Inr b, w3)" and t3: "trace w3 = trace ?w2 @ [CacheSet key s ttl]"
    using set_returns[of key s ttl ?w2] by blast
  have "getOrSet key (Inr v) ttl ser w = (Inr v, w3)"
    using ne c dec enc s3 d1
    by (simp add: getOrSet_def andThen_def tryCatch_def g1 ret_def throw_def call_fetcher_value pure_def)
  then show ?thesis using t1 td t3 by simp
qed

lemma getOrSet_hit:
  assumes g: "fst (get key w) = Inr (Some c)" and ne: "c \<noteq> []"
      and dec: "deserialize ser c = Inr v"
  shows "fst (getOrSet key fetcher ttl ser w) = Inr v
       \<and> trace (snd (getOrSet key fetcher ttl ser w)) = trace w @ [CacheGet key]"
proof -
  obtain c' w1 where g1: "get key w = (Inr c', w1)" and t1: "trace w1 = trace w @ [CacheGet key]"
    using get_returns[of key w] by blast
  have c: "c' = Some c" using g g1 by simp
  have "getOrSet key fetcher ttl ser w = (Inr v, w1)"
    using ne c dec
    by (simp add: getOrSet_def andThen_def tryCatch_def g1 ret_def throw_def pure_def)
  then show ?thesis using t1 by simp
qed

lemma map_of_without: "map_of (without [key] es) key = None"
  by (induction es) (auto simp add: without_def)

lemma getOrSet_corrupt_store:
  assumes "isConnected w" and "\<not> rejected 0 w" and "map_of (entries w) key = Some (c, t0)" and "c \<noteq> []"
      and "deserialize ser c = Inl e" and "serialize ser v = Inr s"
  shows "entries (snd (getOrSet key (Inr v) ttl ser w)) =
           (if rejected 2 w
            then (if rejected 1 w then entries w else without [key] (entries w))
            else (key, s, if ttl = Some 0 then None else ttl) # without [key] (entries w))"
proof (cases "faults w")
  case Nil
  then show ?thesis using assms
    by (auto simp add: rejected_def getOrSet_def get_def del_def set'_def client_get_def client_del_def
          client_set_def client_setEx_def call_fetcher_def pure_def throw_def andThen_def tryCatch_def
          ret_def record_effect_def command_def without_def split: option.splits)
next
  case (Cons f0 r0)
  then have f0: "\<not> f0" using assms(2) by (simp add: rejected_def)
  show ?thesis
  proof (cases r0)
    case Nil
    then show ?thesis using assms Cons f0
      by (auto simp add: rejected_def getOrSet_def get_def del_def set'_def client_get_def client_del_def
            client_set_def client_setEx_def call_fetcher_def pure_def throw_def andThen_def tryCatch_def
            ret_def record_effect_def command_def without_def split: option.splits)
  next
    case c1: (Cons f1 r1)
    show ?thesis
    proof (cases r1)
      case Nil
      then show ?thesis using assms Cons f0 c1
        by (cases f1)
           (auto simp add: rejected_def getOrSet_def get_def del_def set'_def client_get_def client_del_def
              client_set_def client_setEx_def call_fetcher_def pure_def throw_def andThen_def tryCatch_def
              ret_def record_effect_def command_def without_def split: option.splits)
    next
      case c2: (Cons f2 r2)
      then show ?thesis using assms Cons f0 c1
        by (cases f1; cases f2)
           (auto simp add: rejected_def getOrSet_def get_def del_def set'_def client_get_def client_del_def
              client_set_def client_setEx_def call_fetcher_def pure_def throw_def andThen_def tryCatch_def
              ret_def record_effect_def command_def without_def split: option.splits)
    qed
  qed
qed

text \<open>
  C4, as the specification states it, fails when the backing store rejects the delete
  command (a read-only replica answers \<open>GET\<close> and rejects \<open>DEL\<close> and \<open>SET\<close>):
  \<open>del\<close> catches the error and returns \<open>false\<close>, and the corrupt payload is still
  in the store when \<open>getOrSet\<close> has returned the fresh value.
\<close>

theorem corrupt_key_survives_rejected_del:
  "deserialize textSerializer ''{'' = Inl (Error ''SyntaxError'')
   \<and> getOrSet ''k'' (Inr ''fresh'') (Some 60) textSerializer
       \<lparr>isConnected = True, entries = [(''k'', ''{'', None)], faults = [False, True, True], trace = []\<rparr>
     = (Inr ''fresh'', \<lparr>isConnected = True, entries = [(''k'', ''{'', None)], faults = [],
          trace = [CacheGet ''k'', CacheDel ''k'', Fetcher, CacheSet ''k'' ''fresh'' (Some 60)]\<rparr>)"
  by (simp add: eval_defs)

text \<open>
  C4, amended. When \<open>get\<close> reports no usable payload (a miss) and the fetcher returns
  a value that the serializer encodes, \<open>getOrSet\<close> returns that value and has called
  \<open>get\<close>, the fetcher once and \<open>set\<close> with the encoded value, in that order; this
  holds in every world, so also when the connection is down or the write is rejected.
  When \<open>get\<close> reports a payload that the serializer fails to decode, it calls
  \<open>del\<close> on the key, then the fetcher once and \<open>set\<close>, and returns the value
  computed. In a connected world whose \<open>GET\<close> is answered, the key leaves the store
  when the server answers the delete command: it is absent afterwards if the write is
  rejected, and holds the fresh value if the write is answered. When the server rejects
  the delete command the corrupt payload stays if the write is rejected as well, and is
  replaced by the fresh value if the write is answered.
\<close>

theorem getOrSet_computes_once:
  "(fst (get key w) = Inr cached \<and> \<not> truthy cached \<and> serialize ser v = Inr s \<longrightarrow>
      fst (getOrSet key (Inr v) ttl ser w) = Inr v
      \<and> trace (snd (getOrSet key (Inr v) ttl ser w)) = trace w @ [CacheGet key, Fetcher, CacheSet key s ttl])
   \<and> (fst (get key w) = Inr (Some c) \<and> c \<noteq> [] \<and> deserialize ser c = Inl e \<and> serialize ser v = Inr s \<longrightarrow>
      fst (getOrSet key (Inr v) ttl ser w) = Inr v
      \<and> trace (snd (getOrSet key (Inr v) ttl ser w))
           = trace w @ [CacheGet key, CacheDel key, Fetcher, CacheSet key s ttl])
   \<and> (isConnected w \<and> \<not> rejected 0 w \<and> map_of (entries w) key = Some (c, t0) \<and> c \<noteq> []
        \<and> deserialize ser c = Inl e \<and> serialize ser v = Inr s \<longrightarrow>
      entries (snd (getOrSet key (Inr v) ttl ser w)) =
        (if rejected 2 w
         then (if rejected 1 w then entries w else without [key] (entries w))
         else (key, s, if ttl = Some 0 then None else ttl) # without [key] (entries w)))
   \<and> map_of (without [key] (entries w)) key = None"
  using getOrSet_miss[of key w cached ser v s ttl] getOrSet_corrupt[of key w c ser e v s ttl]
    getOrSet_corrupt_store[where w = w and key = key and c = c and ?t0.0 = t0 and ser = ser and e = e and v = v and s = s and ttl = ttl] map_of_without[of key "entries w"]
  by blast

theorem getOrSet_computes_once_witness:
  "getOrSet ''k'' (Inr ''fresh'') (Some 60) textSerializer
     \<lparr>isConnected = True, entries = [], faults = [False, True], trace = []\<rparr>
     = (Inr ''fresh'', \<lparr>isConnected = True, entries = [], faults = [],
          trace = [CacheGet ''k'', Fetcher, CacheSet ''k'' ''fresh'' (Some 60)]\<rparr>)
   \<and> getOrSet ''k'' (Inr ''fresh'') (Some 60) textSerializer
     \<lparr>isConnected = True, entries = [(''k'', ''{'', None)], faults = [], trace = []\<rparr>
     = (Inr ''fresh'', \<lparr>isConnected = True, entries = [(''k'', ''fresh'', Some 60)], faults = [],
          trace = [CacheGet ''k'', CacheDel ''k'', Fetcher, CacheSet ''k'' ''fresh'' (Some 60)]\<rparr>)
   \<and> getOrSet ''k'' (Inr ''fresh'') (Some 60) textSerializer
     \<lparr>isConnected = True, entries = [(''k'', ''{'', None), (''j'', ''x'', None)],
        faults = [False, False, True], trace = []\<rparr>
     = (Inr ''fresh'', \<lparr>isConnected = True, entries = [(''j'', ''x'', None)], faults = [],
          trace = [CacheGet ''k'', CacheDel ''k'', Fetcher, CacheSet ''k'' ''fresh'' (Some 60)]\<rparr>)"
  using getOrSet_computes_once[where key = "''k''" and v = "''fresh''" and s = "''fresh''" and ttl = "Some 60"
      and ser = textSerializer and cached = None
      and w = "\<lparr>isConnected = True, entries = [], faults = [False, True], trace = []\<rparr>"]
    getOrSet_computes_once[where key = "''k''" and v = "''fresh''" and s = "''fresh''" and ttl = "Some 60"
      and ser = textSerializer and c = "''{''" and e = "Error ''SyntaxError''" and ?t0.0 = None
      and w = "\<lparr>isConnected = True, entries = [(''k'', ''{'', None)], faults = [], trace = []\<rparr>"]
    getOrSet_computes_once[where key = "''k''" and v = "''fresh''" and s = "''fresh''" and ttl = "Some 60"
      and ser = textSerializer and c = "''{''" and e = "Error ''SyntaxError''" and ?t0.0 = None
      and w = "\<lparr>isConnected = True, entries = [(''k'', ''{'', None), (''j'', ''x'', None)],
                 faults = [False, False, True], trace = []\<rparr>"]
  by (simp add: eval_defs)

section \<open>Properties of the pipelines\<close>

lemma ingest_eq: "ingest t env = ingestion (cacheKey t) (fetch env t) (cache_ttl t) env"
  by (cases t)
     (simp_all add: ingest_def cacheKey_def ingestNews_def ingestCrypto_def ingestStocks_def
        ingestTrends_def ingestRates_def ingestEconomicData_def fetchNews_def fetchCryptoData_def
        fetchStockData_def fetchTrendsData_def fetchCentralBankRates_def fetchEconomicIndicators_def)

lemma fetch_result:
  "fetch env t w = (fetchResult env t, w\<lparr>trace := trace w @ [Fetch t]\<rparr>)"
  by (cases "fetchResult env t")
     (simp_all add: fetch_def andThen_def record_effect_def pure_def throw_def ret_def)

lemma addData_result:
  "addData env items w =
     ((if items = [] then Inr () else collectionAdd env items), w\<lparr>trace := trace w @ [AddData items]\<rparr>)"
  by (cases "collectionAdd env items")
     (simp_all add: addData_def andThen_def tryCatch_def record_effect_def pure_def throw_def ret_def)

lemma ingestion_present:
  assumes "fst (get k w) = Inr c" and "truthy c"
  shows "ingestion k fd ttl env w = (Inr (), snd (get k w))"
proof -
  obtain w1 where "get k w = (Inr c, w1)" using assms(1) by (cases "get k w") simp
  then show ?thesis using assms(2)
    by (simp add: ingestion_def tryCatch_def andThen_def ret_def)
qed

lemma ingestion_absent:
  assumes "fst (get k w) = Inr c" and "\<not> truthy c"
  shows "fst (ingestion k (fetch env t) ttl env w) = Inr ()
       \<and> trace (snd (ingestion k (fetch env t) ttl env w)) =
           trace w @ CacheGet k # Fetch t #
             (case fetchResult env t of
                Inl e \<Rightarrow> []
              | Inr items \<Rightarrow>
                  (if items = [] then []
                   else AddData items #
                     (case collectionAdd env items of
                        Inl e \<Rightarrow> []
                      | Inr u \<Rightarrow> [CacheSet k ''fetched'' (Some ttl)])))"
proof -
  obtain c' w1 where g1: "get k w = (Inr c', w1)" and t1: "trace w1 = trace w @ [CacheGet k]"
    using get_returns[of k w] by blast
  have c: "c' = c" using assms(1) g1 by simp
  let ?w2 = "w1\<lparr>trace := trace w1 @ [Fetch t]\<rparr>"
  show ?thesis
  proof (cases "fetchResult env t")
    case (Inl e)
    then show ?thesis using assms(2) c t1
      by (simp add: ingestion_def tryCatch_def andThen_def g1 fetch_result ret_def)
  next
    case (Inr items)
    show ?thesis
    proof (cases "items = []")
      case True
      then show ?thesis using assms(2) c t1 Inr
        by (simp add: ingestion_def tryCatch_def andThen_def g1 fetch_result ret_def)
    next
      case False
      let ?w3 = "?w2\<lparr>trace := trace ?w2 @ [AddData items]\<rparr>"
      show ?thesis
      proof (cases "collectionAdd env items")
        case (Inl e)
        then show ?thesis using assms(2) c t1 Inr False
          by (simp add: ingestion_def tryCatch_def andThen_def g1 fetch_result addData_result ret_def)
      next
        case (Inr u)
        obtain b w4 where s4: "set' k ''fetched'' (Some ttl) ?w3 = (Inr b, w4)"
            and t4: "trace w4 = trace ?w3 @ [CacheSet k ''fetched'' (Some ttl)]"
          using set_returns[of k "''fetched''" "Some ttl" ?w3] by blast
        show ?thesis using assms(2) c t1 \<open>fetchResult env t = Inr items\<close> False Inr s4 t4
          by (simp add: ingestion_def tryCatch_def andThen_def g1 fetch_result addData_result ret_def)
      qed
    qed
  qed
qed

lemma get_total: "\<exists>c. fst (get k w) = Inr c"
  using get_returns[of k w] by (metis fst_conv)

lemma get_trace: "trace (snd (get k w)) = trace w @ [CacheGet k]"
  using get_returns[of k w] by (metis snd_conv)

lemma markerPresent_iff: "fst (get (cacheKey t) w) = Inr c \<Longrightarrow> markerPresent t w = truthy c"
  by (simp add: markerPresent_def)

lemma ingest_never_raises: "fst (ingest t env w) = Inr ()"
proof -
  obtain c where g: "fst (get (cacheKey t) w) = Inr c" using get_total by blast
  show ?thesis
  proof (cases "truthy c")
    case True
    then show ?thesis using ingestion_present[OF g True] by (simp add: ingest_eq)
  next
    case False
    then show ?thesis using ingestion_absent[OF g False] by (simp add: ingest_eq)
  qed
qed

lemma ingest_present:
  assumes "markerPresent t w"
  shows "trace (snd (ingest t env w)) = trace w @ [CacheGet (cacheKey t)]"
proof -
  obtain c where g: "fst (get (cacheKey t) w) = Inr c" using get_total by blast
  then have "truthy c" using assms by (simp add: markerPresent_iff)
  then show ?thesis using ingestion_present[OF g] by (simp add: ingest_eq get_trace)
qed

lemma ingest_absent:
  assumes "\<not> markerPresent t w"
  shows "trace (snd (ingest t env w)) =
           trace w @ CacheGet (cacheKey t) # Fetch t #
             (case fetchResult env t of
                Inl e \<Rightarrow> []
              | Inr items \<Rightarrow>
                  (if items = [] then []
                   else AddData items #
                     (case collectionAdd env items of
                        Inl e \<Rightarrow> []
                      | Inr u \<Rightarrow> [CacheSet (cacheKey t) ''fetched'' (Some (cache_ttl t))])))"
proof -
  obtain c where g: "fst (get (cacheKey t) w) = Inr c" using get_total by blast
  then have "\<not> truthy c" using assms by (simp add: markerPresent_iff)
  then show ?thesis using ingestion_absent[OF g] by (simp add: ingest_eq)
qed

lemma markerPresent_redis:
  assumes "isConnected w" and "faults w = []"
  shows "markerPresent t w = (case map_of (entries w) (cacheKey t) of None \<Rightarrow> False | Some (v, ttl) \<Rightarrow> v \<noteq> [])"
  using assms
  by (simp add: markerPresent_def get_def client_get_def andThen_def tryCatch_def ret_def
        record_effect_def command_def truthy_def split: option.splits)

lemma get_entries: "entries (snd (get k w)) = entries w"
  by (auto simp add: get_def client_get_def andThen_def tryCatch_def ret_def record_effect_def command_def
      split: prod.splits sum.splits list.splits bool.splits)

lemma ingest_entries_no_write:
  assumes "\<not> markerPresent t w"
      and "fetchResult env t = Inr [] \<or> (\<exists>items e. fetchResult env t = Inr items \<and> collectionAdd env items = Inl e)
           \<or> (\<exists>e. fetchResult env t = Inl e)"
  shows "entries (snd (ingest t env w)) = entries w"
proof -
  obtain c w1 where g: "get (cacheKey t) w = (Inr c, w1)"
    using get_returns[of "cacheKey t" w] by blast
  have e1: "entries w1 = entries w" using get_entries[of "cacheKey t" w] g by simp
  have nt: "\<not> truthy c" using assms(1) g by (simp add: markerPresent_def)
  show ?thesis using assms(2) nt e1
    by (auto simp add: ingest_eq ingestion_def tryCatch_def andThen_def g fetch_result addData_result ret_def)
qed

lemma cache_ttl_nonzero: "cache_ttl t \<noteq> 0"
  by (cases t) (simp_all add: cache_ttl_def)

lemma set_entries:
  "entries (snd (set' k v (Some ttl) w)) =
     (if isConnected w \<and> \<not> rejected 0 w \<and> ttl \<noteq> 0 then (k, v, Some ttl) # without [k] (entries w)
      else if isConnected w \<and> \<not> rejected 0 w then (k, v, None) # without [k] (entries w)
      else entries w)"
  by (cases "faults w")
     (auto simp add: set'_def client_set_def client_setEx_def andThen_def tryCatch_def ret_def
        record_effect_def command_def rejected_def split: bool.splits)

lemma get_faults:
  "faults (snd (get k w)) = (if isConnected w then tl (faults w) else faults w)"
  by (cases "faults w")
     (auto simp add: get_def client_get_def andThen_def tryCatch_def ret_def
        record_effect_def command_def split: bool.splits)

lemma ingest_marker_written:
  assumes "\<not> markerPresent t w" and "fetchResult env t = Inr items" and "items \<noteq> []"
      and "collectionAdd env items = Inr ()"
  shows "entries (snd (ingest t env w)) =
           (if isConnected w \<and> \<not> rejected 1 w
            then (cacheKey t, ''fetched'', Some (cache_ttl t)) # without [cacheKey t] (entries w)
            else entries w)"
proof -
  obtain c w1 where g: "get (cacheKey t) w = (Inr c, w1)"
    and c1: "isConnected w1 = isConnected w"
    using get_returns[of "cacheKey t" w] by blast
  have e1: "entries w1 = entries w" using get_entries[of "cacheKey t" w] g by simp
  have f1: "faults w1 = (if isConnected w then tl (faults w) else faults w)"
    using get_faults[of "cacheKey t" w] g by simp
  have nt: "\<not> truthy c" using assms(1) g by (simp add: markerPresent_def)
  let ?w3 = "w1\<lparr>trace := trace w1 @ [Fetch t, AddData items]\<rparr>"
  have r: "isConnected w \<Longrightarrow> rejected 0 ?w3 = rejected 1 w"
    using f1 by (cases "faults w") (auto simp add: rejected_def nth_Cons')
  have "snd (ingest t env w) = snd (set' (cacheKey t) ''fetched'' (Some (cache_ttl t)) ?w3)"
    using assms nt
    by (cases "set' (cacheKey t) ''fetched'' (Some (cache_ttl t)) ?w3")
       (auto simp add: ingest_eq ingestion_def tryCatch_def andThen_def g fetch_result addData_result ret_def
          split: sum.splits)
  then show ?thesis using set_entries[of "cacheKey t" "''fetched''" "cache_ttl t" ?w3] e1 c1 r cache_ttl_nonzero[of t]
    by auto
qed

text \<open>
  C5, as the specification states it, fails when the store collaborator raises: the
  marker is absent and the fetch returns an item, yet the pipeline makes the fetch call
  and the store call and writes no marker.
\<close>

theorem store_failure_leaves_no_marker:
  "\<not> markerPresent Crypto freshWorld
   \<and> fetchResult envStoreFails Crypto = Inr [exampleItem]
   \<and> ingest Crypto envStoreFails freshWorld =
       (Inr (), \<lparr>isConnected = True, entries = [], faults = [],
                 trace = [CacheGet ''crypto_latest'', Fetch Crypto, AddData [exampleItem]]\<rparr>)"
  by (simp add: eval_defs)

text \<open>
  C5, amended. A pipeline never raises. When its dedup check finds the marker it does
  nothing but that check: no fetch, no store. When the check finds no marker and the
  fetch returns at least one item, it makes exactly one fetch call and one store call
  with the items fetched; when the store returns normally it then makes one marker
  write, with the time to live configured for its source (the marker is in the store
  afterwards when the cache is connected and the server answers the write), and when the
  store raises it writes no marker and leaves the cache as it was. When the check finds no marker and the
  fetch returns no item, it makes the fetch call and nothing else: no store call, no
  marker write. With the cache connected and no Redis command rejected, the check finds
  the marker exactly when the server holds a non-empty value under the pipeline's key.
\<close>

theorem pipeline_effects:
  "fst (ingest t env w) = Inr ()
   \<and> (markerPresent t w \<longrightarrow>
        trace (snd (ingest t env w)) = trace w @ [CacheGet (cacheKey t)])
   \<and> (\<not> markerPresent t w \<and> fetchResult env t = Inr items \<and> items \<noteq> [] \<and> collectionAdd env items = Inr () \<longrightarrow>
        trace (snd (ingest t env w)) =
          trace w @ [CacheGet (cacheKey t), Fetch t, AddData items,
                     CacheSet (cacheKey t) ''fetched'' (Some (cache_ttl t))]
        \<and> entries (snd (ingest t env w)) =
          (if isConnected w \<and> \<not> rejected 1 w
           then (cacheKey t, ''fetched'', Some (cache_ttl t)) # without [cacheKey t] (entries w)
           else entries w))
   \<and> (\<not> markerPresent t w \<and> fetchResult env t = Inr items \<and> items \<noteq> [] \<and> collectionAdd env items = Inl e \<longrightarrow>
        trace (snd (ingest t env w)) = trace w @ [CacheGet (cacheKey t), Fetch t, AddData items]
        \<and> entries (snd (ingest t env w)) = entries w)
   \<and> (\<not> markerPresent t w \<and> fetchResult env t = Inr [] \<longrightarrow>
        trace (snd (ingest t env w)) = trace w @ [CacheGet (cacheKey t), Fetch t]
        \<and> entries (snd (ingest t env w)) = entries w)
   \<and> (isConnected w \<and> faults w = [] \<longrightarrow>
        markerPresent t w =
          (case map_of (entries w) (cacheKey t) of None \<Rightarrow> False | Some (v, ttl) \<Rightarrow> v \<noteq> []))"
proof -
  have a: "markerPresent t w \<longrightarrow>
        trace (snd (ingest t env w)) = trace w @ [CacheGet (cacheKey t)]"
    using ingest_present by blast
  have b: "\<not> markerPresent t w \<and> fetchResult env t = Inr items \<and> items \<noteq> [] \<and> collectionAdd env items = Inr () \<longrightarrow>
        trace (snd (ingest t env w)) =
          trace w @ [CacheGet (cacheKey t), Fetch t, AddData items,
                     CacheSet (cacheKey t) ''fetched'' (Some (cache_ttl t))]
        \<and> entries (snd (ingest t env w)) =
          (if isConnected w \<and> \<not> rejected 1 w
           then (cacheKey t, ''fetched'', Some (cache_ttl t)) # without [cacheKey t] (entries w)
           else entries w)"
    using ingest_absent[of t w env] ingest_marker_written[of t w env items] by simp
  have b2: "\<not> markerPresent t w \<and> fetchResult env t = Inr items \<and> items \<noteq> [] \<and> collectionAdd env items = Inl e \<longrightarrow>
        trace (snd (ingest t env w)) = trace w @ [CacheGet (cacheKey t), Fetch t, AddData items]
        \<and> entries (snd (ingest t env w)) = entries w"
    using ingest_absent[of t w env] ingest_entries_no_write[of t w env] by auto
  have c: "\<not> markerPresent t w \<and> fetchResult env t = Inr [] \<longrightarrow>
        trace (snd (ingest t env w)) = trace w @ [CacheGet (cacheKey t), Fetch t]
        \<and> entries (snd (ingest t env w)) = entries w"
    using ingest_absent[of t w env] ingest_entries_no_write[of t w env] by auto
  have d: "isConnected w \<and> faults w = [] \<longrightarrow>
        markerPresent t w =
          (case map_of (entries w) (cacheKey t) of None \<Rightarrow> False | Some (v, ttl) \<Rightarrow> v \<noteq> [])"
    using markerPresent_redis by blast
  show ?thesis using a b b2 c d ingest_never_raises[of t env w] by blast
qed

theorem pipeline_effects_witness:
  "trace (snd (ingest Stocks envItems markedWorld)) = [CacheGet ''stocks_latest'']
   \<and> trace (snd (ingest Crypto envItems freshWorld))
       = [CacheGet ''crypto_latest'', Fetch Crypto, AddData [exampleItem],
          CacheSet ''crypto_latest'' ''fetched'' (Some 300)]
   \<and> entries (snd (ingest Crypto envItems freshWorld)) = [(''crypto_latest'', ''fetched'', Some 300)]
   \<and> trace (snd (ingest Rates envStoreFails freshWorld))
       = [CacheGet ''rates_latest'', Fetch Rates, AddData [exampleItem]]
   \<and> entries (snd (ingest Rates envStoreFails freshWorld)) = []
   \<and> trace (snd (ingest News envEmpty freshWorld)) = [CacheGet ''news_latest'', Fetch News]
   \<and> entries (snd (ingest News envEmpty freshWorld)) = []"
  using pipeline_effects[where t = Stocks and env = envItems and w = markedWorld]
    pipeline_effects[where t = Crypto and env = envItems and w = freshWorld and items = "[exampleItem]"]
    pipeline_effects[where t = Rates and env = envStoreFails and w = freshWorld and items = "[exampleItem]"
      and e = "Error ''store unavailable''"]
    pipeline_effects[where t = News and env = envEmpty and w = freshWorld]
  by (simp add: eval_defs)

section \<open>Properties of the full run\<close>

text \<open>
  A branch run alone, resumed four times, ends settled in the world that the pipeline
  leaves: the steps are the pipeline, cut at its awaits.
\<close>

lemma steps_agree:
  "(\<lambda>(st, w). resumeIngest t env st w) ((\<lambda>(st, w). resumeIngest t env st w)
     ((\<lambda>(st, w). resumeIngest t env st w) ((\<lambda>(st, w). resumeIngest t env st w) (startIngest t env w))))
   = (Settled (Inr ()), snd (ingest t env w))"
proof -
  obtain c w1 where g: "get (cacheKey t) w = (Inr c, w1)"
    using get_returns[of "cacheKey t" w] by blast
  show ?thesis
  proof (cases "truthy c")
    case True
    then show ?thesis
      by (simp add: startIngest_def g ingest_eq ingestion_def tryCatch_def andThen_def ret_def)
  next
    case False
    show ?thesis
    proof (cases "fetchResult env t")
      case (Inl e)
      then show ?thesis using False
        by (simp add: startIngest_def g ingest_eq ingestion_def tryCatch_def andThen_def ret_def fetch_result)
    next
      case (Inr items)
      show ?thesis
      proof (cases "items = []")
        case True
        then show ?thesis using False Inr
          by (simp add: startIngest_def g ingest_eq ingestion_def tryCatch_def andThen_def ret_def fetch_result)
      next
        case ne: False
        let ?w3 = "w1\<lparr>trace := trace w1 @ [Fetch t, AddData items]\<rparr>"
        show ?thesis
        proof (cases "collectionAdd env items")
          case (Inl e)
          then show ?thesis using False \<open>fetchResult env t = Inr items\<close> ne
            by (simp add: startIngest_def g ingest_eq ingestion_def tryCatch_def andThen_def ret_def
                  fetch_result addData_result)
        next
          case (Inr u)
          obtain b w4 where s4: "set' (cacheKey t) ''fetched'' (Some (cache_ttl t)) ?w3 = (Inr b, w4)"
            using set_returns[of "cacheKey t" "''fetched''" "Some (cache_ttl t)" ?w3] by blast
          show ?thesis using False \<open>fetchResult env t = Inr items\<close> ne Inr s4
            by (simp add: startIngest_def g ingest_eq ingestion_def tryCatch_def andThen_def ret_def
                  fetch_result addData_result)
        qed
      qed
    qed
  qed
qed

text \<open>
  Every step of a branch appends the calls it makes to the log and takes them from the
  calls the branch has left; so the log and the calls left, taken together, do not
  change while branches are resumed in any order.
\<close>

lemma resumeIngest_calls:
  "\<exists>e. trace (snd (resumeIngest t env st w)) = trace w @ e
       \<and> callsLeft env (t, st) = e @ callsLeft env (t, fst (resumeIngest t env st w))"
proof (cases st)
  case (AwaitingGet r)
  then show ?thesis
    by (cases r) (auto simp add: pipelineCalls_def fetch_result split: sum.splits)
next
  case (AwaitingFetch r)
  show ?thesis
  proof (cases r)
    case (Inl e)
    then show ?thesis using AwaitingFetch by simp
  next
    case (Inr items)
    then show ?thesis using AwaitingFetch
      by (cases "collectionAdd env items") (auto simp add: addData_result)
  qed
next
  case (AwaitingAddData r)
  show ?thesis
  proof (cases r)
    case (Inl e)
    then show ?thesis using AwaitingAddData by simp
  next
    case (Inr u)
    obtain b w1 where s: "set' (cacheKey t) ''fetched'' (Some (cache_ttl t)) w = (Inr b, w1)"
      and tr: "trace w1 = trace w @ [CacheSet (cacheKey t) ''fetched'' (Some (cache_ttl t))]"
      using set_returns[of "cacheKey t" "''fetched''" "Some (cache_ttl t)" w] by blast
    show ?thesis using AwaitingAddData Inr s tr by simp
  qed
next
  case (AwaitingSet r)
  then show ?thesis by simp
next
  case (Settled r)
  then show ?thesis by simp
qed

lemma resumeAt_calls:
  "\<exists>e. trace (snd (resumeAt env i bs w)) = trace w @ e
       \<and> mset e + mset (concat (map (callsLeft env) (fst (resumeAt env i bs w))))
           = mset (concat (map (callsLeft env) bs))
       \<and> map fst (fst (resumeAt env i bs w)) = map fst bs"
proof (induction env i bs w rule: resumeAt.induct)
  case (1 env i w)
  then show ?case by simp
next
  case (2 env t st bs w)
  obtain st1 w1 where r: "resumeIngest t env st w = (st1, w1)" by (cases "resumeIngest t env st w")
  obtain e where "trace w1 = trace w @ e" and "callsLeft env (t, st) = e @ callsLeft env (t, st1)"
    using resumeIngest_calls[of t env st w] r by auto
  then show ?case by (simp add: r)
next
  case (3 env i b bs w)
  then show ?case by (auto simp add: split_beta ac_simps)
qed

lemma resumeAll_calls:
  "\<exists>e. trace (snd (resumeAll env bs w)) = trace w @ e
       \<and> mset e + mset (concat (map (callsLeft env) (fst (resumeAll env bs w))))
           = mset (concat (map (callsLeft env) bs))
       \<and> map fst (fst (resumeAll env bs w)) = map fst bs"
proof (induction env bs w rule: resumeAll.induct)
  case (1 env w)
  then show ?case by simp
next
  case (2 env t st bs w)
  obtain st1 w1 where r: "resumeIngest t env st w = (st1, w1)" by (cases "resumeIngest t env st w")
  obtain e where e: "trace w1 = trace w @ e" "callsLeft env (t, st) = e @ callsLeft env (t, st1)"
    using resumeIngest_calls[of t env st w] r by auto
  obtain e2 where e2: "trace (snd (resumeAll env bs w1)) = trace w1 @ e2"
      "mset e2 + mset (concat (map (callsLeft env) (fst (resumeAll env bs w1))))
           = mset (concat (map (callsLeft env) bs))"
      "map fst (fst (resumeAll env bs w1)) = map fst bs"
    using "2.IH"[OF r[symmetric]] by blast
  have "trace (snd (resumeAll env ((t, st) # bs) w)) = trace w @ (e @ e2)"
    using e e2 by (simp add: r split_beta)
  moreover have "mset (e @ e2) + mset (concat (map (callsLeft env) (fst (resumeAll env ((t, st) # bs) w))))
           = mset (concat (map (callsLeft env) ((t, st) # bs)))"
    using e e2(2)[symmetric] by (simp add: r split_beta ac_simps)
  moreover have "map fst (fst (resumeAll env ((t, st) # bs) w)) = map fst ((t, st) # bs)"
    using e2 by (simp add: r split_beta)
  ultimately show ?case by blast
qed

lemma settled_no_calls:
  "list_all (\<lambda>b. isSettled (snd b)) bs \<Longrightarrow> concat (map (callsLeft env) bs) = []"
proof (induction bs)
  case Nil
  then show ?case by simp
next
  case (Cons b bs)
  obtain t st where b: "b = (t, st)" by (cases b)
  show ?case using Cons b by (cases st) simp_all
qed

text \<open>
  \<open>allSettled\<close> returns with every branch settled, and by then every branch has made
  all the calls it had left, whatever the order of the completions.
\<close>

lemma allSettled_calls:
  "list_all (\<lambda>b. isSettled (snd b)) (fst (allSettled env order bs w))
   \<and> map fst (fst (allSettled env order bs w)) = map fst bs
   \<and> (\<exists>e. trace (snd (allSettled env order bs w)) = trace w @ e
          \<and> mset e = mset (concat (map (callsLeft env) bs)))"
proof (induction env order bs w rule: allSettled.induct)
  case (1 env order bs w)
  show ?case
  proof (cases "list_all (\<lambda>b. isSettled (snd b)) bs")
    case True
    then show ?thesis by (simp add: allSettled.simps[of env order bs w] settled_no_calls)
  next
    case False
    show ?thesis
    proof (cases order)
      case Nil
      let ?bs1 = "fst (resumeAll env bs w)" and ?w1 = "snd (resumeAll env bs w)"
      have eq: "allSettled env order bs w = allSettled env [] ?bs1 ?w1"
        using False Nil allSettled.simps[of env order bs w] by simp
      obtain e1 where e1: "trace ?w1 = trace w @ e1"
          "mset e1 + mset (concat (map (callsLeft env) ?bs1)) = mset (concat (map (callsLeft env) bs))"
          "map fst ?bs1 = map fst bs"
        using resumeAll_calls[of env bs w] by blast
      obtain e2 where e2: "trace (snd (allSettled env [] ?bs1 ?w1)) = trace ?w1 @ e2"
          "mset e2 = mset (concat (map (callsLeft env) ?bs1))"
        using "1.IH"(1)[OF False Nil] by blast
      have "trace (snd (allSettled env order bs w)) = trace w @ (e1 @ e2)"
        using e1 e2 by (simp add: eq)
      moreover have "mset (e1 @ e2) = mset (concat (map (callsLeft env) bs))"
        using e1(2)[symmetric] e2(2) by simp
      ultimately show ?thesis using "1.IH"(1)[OF False Nil] e1(3) by (auto simp add: eq)
    next
      case (Cons i rest)
      let ?bs1 = "fst (resumeAt env i bs w)" and ?w1 = "snd (resumeAt env i bs w)"
      have eq: "allSettled env order bs w = allSettled env rest ?bs1 ?w1"
        using False Cons allSettled.simps[of env order bs w] by simp
      obtain e1 where e1: "trace ?w1 = trace w @ e1"
          "mset e1 + mset (concat (map (callsLeft env) ?bs1)) = mset (concat (map (callsLeft env) bs))"
          "map fst ?bs1 = map fst bs"
        using resumeAt_calls[of env i bs w] by blast
      obtain e2 where e2: "trace (snd (allSettled env rest ?bs1 ?w1)) = trace ?w1 @ e2"
          "mset e2 = mset (concat (map (callsLeft env) ?bs1))"
        using "1.IH"(2)[OF False Cons] by blast
      have "trace (snd (allSettled env order bs w)) = trace w @ (e1 @ e2)"
        using e1 e2 by (simp add: eq)
      moreover have "mset (e1 @ e2) = mset (concat (map (callsLeft env) bs))"
        using e1(2)[symmetric] e2(2) by simp
      ultimately show ?thesis using "1.IH"(2)[OF False Cons] e1(3) by (auto simp add: eq)
    qed
  qed
qed

lemma callsLeft_started:
  "callsLeft env (t, AwaitingGet (fst (get (cacheKey t) w))) = tl (pipelineCalls env t (markerPresent t w))"
proof -
  obtain c where c: "fst (get (cacheKey t) w) = Inr c" using get_total by blast
  then show ?thesis by (simp add: markerPresent_def)
qed

lemma mset_pipelineCalls:
  "mset (pipelineCalls env t p) = add_mset (CacheGet (cacheKey t)) (mset (tl (pipelineCalls env t p)))"
  by (simp add: pipelineCalls_def)

lemma startAll_checks:
  "snd (startAll env ts w) = afterChecks ts w
   \<and> map fst (fst (startAll env ts w)) = ts
   \<and> trace (afterChecks ts w) = trace w @ map (\<lambda>t. CacheGet (cacheKey t)) ts"
proof (induction ts arbitrary: w)
  case Nil
  then show ?case by simp
next
  case (Cons t ts)
  show ?case using Cons[of "snd (get (cacheKey t) w)"]
    by (simp add: startIngest_def split_beta get_trace)
qed

lemma ingest_calls:
  "trace (snd (ingest t env w)) = trace w @ pipelineCalls env t (markerPresent t w)"
proof (cases "markerPresent t w")
  case True
  then show ?thesis by (simp add: ingest_present pipelineCalls_def)
next
  case False
  then show ?thesis by (simp add: ingest_absent pipelineCalls_def)
qed

lemma fanOut_calls:
  "\<exists>e. trace (snd (fanOut env w)) =
          trace w @ map (\<lambda>t. CacheGet (cacheKey t)) [News, Crypto, Stocks, Trends, Rates, Economic] @ e
       \<and> mset e =
           mset (tl (pipelineCalls env News (markerPresent News w)))
         + mset (tl (pipelineCalls env Crypto (markerPresent Crypto (afterChecks [News] w))))
         + mset (tl (pipelineCalls env Stocks (markerPresent Stocks (afterChecks [News, Crypto] w))))
         + mset (tl (pipelineCalls env Trends (markerPresent Trends (afterChecks [News, Crypto, Stocks] w))))
         + mset (tl (pipelineCalls env Rates (markerPresent Rates (afterChecks [News, Crypto, Stocks, Trends] w))))
         + mset (tl (pipelineCalls env Economic
                   (markerPresent Economic (afterChecks [News, Crypto, Stocks, Trends, Rates] w))))"
proof -
  let ?ts = "[News, Crypto, Stocks, Trends, Rates, Economic]"
  let ?bs = "fst (startAll env ?ts w)" and ?w1 = "snd (startAll env ?ts w)"
  have f: "fanOut env w = allSettled env (completions env) ?bs ?w1"
    by (simp add: fanOut_def split_beta)
  have t1: "trace ?w1 = trace w @ map (\<lambda>t. CacheGet (cacheKey t)) ?ts"
    using startAll_checks[of env ?ts w] by simp
  obtain e where e: "trace (snd (allSettled env (completions env) ?bs ?w1)) = trace ?w1 @ e"
      "mset e = mset (concat (map (callsLeft env) ?bs))"
    using allSettled_calls[of env "completions env" ?bs ?w1] by blast
  have c: "concat (map (callsLeft env) ?bs) =
           tl (pipelineCalls env News (markerPresent News w))
         @ tl (pipelineCalls env Crypto (markerPresent Crypto (afterChecks [News] w)))
         @ tl (pipelineCalls env Stocks (markerPresent Stocks (afterChecks [News, Crypto] w)))
         @ tl (pipelineCalls env Trends (markerPresent Trends (afterChecks [News, Crypto, Stocks] w)))
         @ tl (pipelineCalls env Rates (markerPresent Rates (afterChecks [News, Crypto, Stocks, Trends] w)))
         @ tl (pipelineCalls env Economic
                   (markerPresent Economic (afterChecks [News, Crypto, Stocks, Trends, Rates] w)))"
    by (simp add: startIngest_def split_beta callsLeft_started del: callsLeft.simps)
  show ?thesis using e t1 c by (simp add: f)
qed

lemma resumeIngest_unrejected:
  "unrejected st \<Longrightarrow> unrejected (fst (resumeIngest t env st w))"
  by (cases st) (auto split: sum.splits prod.splits)

lemma resumeAt_unrejected:
  "list_all (\<lambda>b. unrejected (snd b)) bs \<Longrightarrow>
   list_all (\<lambda>b. unrejected (snd b)) (fst (resumeAt env i bs w))"
proof (induction env i bs w rule: resumeAt.induct)
  case (1 env i w)
  then show ?case by simp
next
  case (2 env t st bs w)
  then show ?case using resumeIngest_unrejected[of st t env w] by (simp add: split_beta)
next
  case (3 env i b bs w)
  then show ?case by (simp add: split_beta)
qed

lemma resumeAll_unrejected:
  "list_all (\<lambda>b. unrejected (snd b)) bs \<Longrightarrow>
   list_all (\<lambda>b. unrejected (snd b)) (fst (resumeAll env bs w))"
proof (induction env bs w rule: resumeAll.induct)
  case (1 env w)
  then show ?case by simp
next
  case (2 env t st bs w)
  obtain st1 w1 where r: "resumeIngest t env st w = (st1, w1)" by (cases "resumeIngest t env st w")
  have "unrejected st1" using resumeIngest_unrejected[of st t env w] "2.prems" r by simp
  moreover have "list_all (\<lambda>b. unrejected (snd b)) (fst (resumeAll env bs w1))"
    using "2.IH"[OF r[symmetric]] "2.prems" by simp
  ultimately show ?case by (simp add: r split_beta)
qed

lemma allSettled_unrejected:
  "list_all (\<lambda>b. unrejected (snd b)) bs \<Longrightarrow>
   list_all (\<lambda>b. unrejected (snd b)) (fst (allSettled env order bs w))"
proof (induction env order bs w rule: allSettled.induct)
  case (1 env order bs w)
  show ?case
  proof (cases "list_all (\<lambda>b. isSettled (snd b)) bs")
    case True
    then show ?thesis using "1.prems" by (simp add: allSettled.simps[of env order bs w])
  next
    case False
    show ?thesis
    proof (cases order)
      case Nil
      have eq: "allSettled env order bs w =
          allSettled env [] (fst (resumeAll env bs w)) (snd (resumeAll env bs w))"
        using False Nil allSettled.simps[of env order bs w] by simp
      show ?thesis
        using "1.IH"(1)[OF False Nil resumeAll_unrejected[OF "1.prems"]] by (simp add: eq)
    next
      case (Cons i rest)
      have eq: "allSettled env order bs w =
          allSettled env rest (fst (resumeAt env i bs w)) (snd (resumeAt env i bs w))"
        using False Cons allSettled.simps[of env order bs w] by simp
      show ?thesis
        using "1.IH"(2)[OF False Cons resumeAt_unrejected[OF "1.prems"]] by (simp add: eq)
    qed
  qed
qed

lemma startAll_unrejected: "list_all (\<lambda>b. unrejected (snd b)) (fst (startAll env ts w))"
  by (induction ts arbitrary: w) (simp_all add: startIngest_def split_beta)

lemma settled_fulfilled:
  "isSettled st \<Longrightarrow> unrejected st \<Longrightarrow> st = Settled (Inr ())"
  by (cases st rule: unrejected.cases) simp_all

lemma branches_fulfilled:
  "list_all (\<lambda>b. isSettled (snd b)) bs \<Longrightarrow> list_all (\<lambda>b. unrejected (snd b)) bs \<Longrightarrow>
   bs = map (\<lambda>t. (t, Settled (Inr ()))) (map fst bs)"
proof (induction bs)
  case Nil
  then show ?case by simp
next
  case (Cons b bs)
  then show ?case using settled_fulfilled[of "snd b"] by (cases b) simp
qed

lemma fanOut_fulfilled:
  "fst (fanOut env w) =
     [(News, Settled (Inr ())), (Crypto, Settled (Inr ())), (Stocks, Settled (Inr ())),
      (Trends, Settled (Inr ())), (Rates, Settled (Inr ())), (Economic, Settled (Inr ()))]"
proof -
  let ?ts = "[News, Crypto, Stocks, Trends, Rates, Economic]"
  let ?bs = "fst (startAll env ?ts w)" and ?w1 = "snd (startAll env ?ts w)"
  have f: "fanOut env w = allSettled env (completions env) ?bs ?w1"
    by (simp add: fanOut_def split_beta)
  have a: "list_all (\<lambda>b. isSettled (snd b)) (fst (fanOut env w))"
    and m: "map fst (fst (fanOut env w)) = ?ts"
    using allSettled_calls[of env "completions env" ?bs ?w1] startAll_checks[of env ?ts w]
    by (simp_all add: f)
  have u: "list_all (\<lambda>b. unrejected (snd b)) (fst (fanOut env w))"
    using allSettled_unrejected[OF startAll_unrejected[of env ?ts w], of env "completions env" ?w1]
    by (simp add: f)
  show ?thesis using branches_fulfilled[OF a u] m by simp
qed

text \<open>
  C6. \<open>runOnce("all")\<close> returns normally whatever the collaborators and the cache do
  and in whatever order the awaited operations complete. It returns the world in which
  \<open>Promise.allSettled\<close> returned, and there all six branches have settled, each of
  them fulfilled: the error of a pipeline is caught inside it. The six
  dedup checks are made first, in the order of the array. The calls made during the run
  are, up to their order, the calls of the six pipelines together, each pipeline making
  exactly the calls that it makes when run alone on the answer to its own dedup check:
  a pipeline whose fetch or store fails takes nothing from the other five, which fetch,
  store and write their markers. Each pipeline by itself returns normally.
\<close>

theorem run_all_settles:
  "fst (runOnce ''all'' env w) = Inr ()
   \<and> snd (runOnce ''all'' env w) = snd (fanOut env w)
   \<and> map fst (fst (fanOut env w)) = [News, Crypto, Stocks, Trends, Rates, Economic]
   \<and> list_all (\<lambda>b. isSettled (snd b)) (fst (fanOut env w))
   \<and> fst (fanOut env w) =
       [(News, Settled (Inr ())), (Crypto, Settled (Inr ())), (Stocks, Settled (Inr ())),
        (Trends, Settled (Inr ())), (Rates, Settled (Inr ())), (Economic, Settled (Inr ()))]
   \<and> take (length (trace w) + 6) (trace (snd (runOnce ''all'' env w))) =
       trace w @ map (\<lambda>t. CacheGet (cacheKey t)) [News, Crypto, Stocks, Trends, Rates, Economic]
   \<and> mset (trace (snd (runOnce ''all'' env w))) =
         mset (trace w)
       + mset (pipelineCalls env News (markerPresent News w))
       + mset (pipelineCalls env Crypto (markerPresent Crypto (afterChecks [News] w)))
       + mset (pipelineCalls env Stocks (markerPresent Stocks (afterChecks [News, Crypto] w)))
       + mset (pipelineCalls env Trends (markerPresent Trends (afterChecks [News, Crypto, Stocks] w)))
       + mset (pipelineCalls env Rates (markerPresent Rates (afterChecks [News, Crypto, Stocks, Trends] w)))
       + mset (pipelineCalls env Economic
                 (markerPresent Economic (afterChecks [News, Crypto, Stocks, Trends, Rates] w)))
   \<and> trace (snd (ingest t env w)) = trace w @ pipelineCalls env t (markerPresent t w)
   \<and> fst (ingest t env w) = Inr ()"
proof -
  let ?ts = "[News, Crypto, Stocks, Trends, Rates, Economic]"
  have r: "runOnce ''all'' env w = (Inr (), snd (fanOut env w))"
    by (simp add: runOnce_def ingestAll_def)
  have s: "map fst (fst (fanOut env w)) = ?ts \<and> list_all (\<lambda>b. isSettled (snd b)) (fst (fanOut env w))"
    using allSettled_calls[of env "completions env" "fst (startAll env ?ts w)" "snd (startAll env ?ts w)"]
      startAll_checks[of env ?ts w]
    by (simp add: fanOut_def split_beta)
  obtain e where e: "trace (snd (fanOut env w)) = trace w @ map (\<lambda>t. CacheGet (cacheKey t)) ?ts @ e"
    and m: "mset e =
           mset (tl (pipelineCalls env News (markerPresent News w)))
         + mset (tl (pipelineCalls env Crypto (markerPresent Crypto (afterChecks [News] w))))
         + mset (tl (pipelineCalls env Stocks (markerPresent Stocks (afterChecks [News, Crypto] w))))
         + mset (tl (pipelineCalls env Trends (markerPresent Trends (afterChecks [News, Crypto, Stocks] w))))
         + mset (tl (pipelineCalls env Rates (markerPresent Rates (afterChecks [News, Crypto, Stocks, Trends] w))))
         + mset (tl (pipelineCalls env Economic
                   (markerPresent Economic (afterChecks [News, Crypto, Stocks, Trends, Rates] w))))"
    using fanOut_calls[of env w] by blast
  have tk: "take (length (trace w) + 6) (trace (snd (runOnce ''all'' env w))) =
       trace w @ map (\<lambda>t. CacheGet (cacheKey t)) ?ts"
    by (simp add: r e)
  have ms: "mset (trace (snd (runOnce ''all'' env w))) =
         mset (trace w)
       + mset (pipelineCalls env News (markerPresent News w))
       + mset (pipelineCalls env Crypto (markerPresent Crypto (afterChecks [News] w)))
       + mset (pipelineCalls env Stocks (markerPresent Stocks (afterChecks [News, Crypto] w)))
       + mset (pipelineCalls env Trends (markerPresent Trends (afterChecks [News, Crypto, Stocks] w)))
       + mset (pipelineCalls env Rates (markerPresent Rates (afterChecks [News, Crypto, Stocks, Trends] w)))
       + mset (pipelineCalls env Economic
                 (markerPresent Economic (afterChecks [News, Crypto, Stocks, Trends, Rates] w)))"
    by (simp add: r e m mset_pipelineCalls)
  show ?thesis
    using r s tk ms ingest_calls[of t env w] ingest_never_raises[of t env w] fanOut_fulfilled[of env w]
    by simp
qed

theorem run_all_settles_witness:
  "runOnce ''all'' envNewsFails freshWorld =
     (Inr (),
      \<lparr>isConnected = True,
       entries = [(''economic_latest'', ''fetched'', Some 604800), (''rates_latest'', ''fetched'', Some 604800),
                  (''trends_latest'', ''fetched'', Some 21600), (''stocks_latest'', ''fetched'', Some 600),
                  (''crypto_latest'', ''fetched'', Some 300)],
       faults = [],
       trace = [CacheGet ''news_latest'', CacheGet ''crypto_latest'', CacheGet ''stocks_latest'',
                CacheGet ''trends_latest'', CacheGet ''rates_latest'', CacheGet ''economic_latest'',
                Fetch News, Fetch Crypto, Fetch Stocks, Fetch Trends, Fetch Rates, Fetch Economic,
                AddData [exampleItem], AddData [exampleItem], AddData [exampleItem],
                AddData [exampleItem], AddData [exampleItem],
                CacheSet ''crypto_latest'' ''fetched'' (Some 300),
                CacheSet ''stocks_latest'' ''fetched'' (Some 600),
                CacheSet ''trends_latest'' ''fetched'' (Some 21600),
                CacheSet ''rates_latest'' ''fetched'' (Some 604800),
                CacheSet ''economic_latest'' ''fetched'' (Some 604800)]\<rparr>)
   \<and> runOnce ''all'' envNewsFailsLastFirst freshWorld =
     (Inr (),
      \<lparr>isConnected = True,
       entries = [(''rates_latest'', ''fetched'', Some 604800), (''trends_latest'', ''fetched'', Some 21600),
                  (''stocks_latest'', ''fetched'', Some 600), (''crypto_latest'', ''fetched'', Some 300),
                  (''economic_latest'', ''fetched'', Some 604800)],
       faults = [],
       trace = [CacheGet ''news_latest'', CacheGet ''crypto_latest'', CacheGet ''stocks_latest'',
                CacheGet ''trends_latest'', CacheGet ''rates_latest'', CacheGet ''economic_latest'',
                Fetch Economic, AddData [exampleItem], CacheSet ''economic_latest'' ''fetched'' (Some 604800),
                Fetch News, Fetch Crypto, Fetch Stocks, Fetch Trends, Fetch Rates,
                AddData [exampleItem], AddData [exampleItem], AddData [exampleItem], AddData [exampleItem],
                CacheSet ''crypto_latest'' ''fetched'' (Some 300),
                CacheSet ''stocks_latest'' ''fetched'' (Some 600),
                CacheSet ''trends_latest'' ''fetched'' (Some 21600),
                CacheSet ''rates_latest'' ''fetched'' (Some 604800)]\<rparr>)
   \<and> map fst (entries (snd (runOnce ''all'' envItems
         \<lparr>isConnected = True, entries = [], faults = [False, True], trace = []\<rparr>)))
       = [''economic_latest'', ''rates_latest'', ''trends_latest'', ''stocks_latest'',
          ''crypto_latest'', ''news_latest'']"
  using run_all_settles[where env = envNewsFails and w = freshWorld and t = News]
  by code_simp

section \<open>Manual runs and the trading-hours gate\<close>

lemma isMarketHours_iff:
  "isMarketHours now = (day now \<noteq> 0 \<and> day now \<noteq> 6 \<and> 9 \<le> hour now \<and> hour now < 16)"
  by (auto simp add: isMarketHours_def)

text \<open>
  C1, as the specification states it, fails: on a Sunday at noon the gate is closed, yet
  a manual \<open>runOnce("stocks")\<close> on an empty cache fetches, stores and writes the
  marker, while a tick of the schedule at the same time does nothing.
\<close>

theorem manual_stocks_run_closed_gate:
  "\<not> isMarketHours \<lparr>day = 0, hour = 12\<rparr>
   \<and> trace (snd (runOnce ''stocks'' envItems freshWorld))
       = [CacheGet ''stocks_latest'', Fetch Stocks, AddData [exampleItem],
          CacheSet ''stocks_latest'' ''fetched'' (Some 600)]
   \<and> trace (snd (scheduleTask Stocks \<lparr>day = 0, hour = 12\<rparr> envItems freshWorld)) = []"
  by (simp add: eval_defs)

text \<open>
  C1, amended. \<open>runOnce("stocks")\<close> is the equities pipeline itself and never reads
  the clock: it makes the dedup check and stops there when the marker is present, and
  fetches, stores and writes the marker when the marker is absent and the fetch returns
  items that the store accepts. Only the tick of the schedule is gated: with the gate
  open it is the pipeline, with the gate closed it leaves the world as it is. The gate
  is open on the days 1 to 5 from hour 9 up to hour 15.
\<close>

theorem manual_stocks_run_ungated:
  "runOnce ''stocks'' env w = ingest Stocks env w
   \<and> (isMarketHours now \<longrightarrow> scheduleTask Stocks now env w = ingest Stocks env w)
   \<and> (\<not> isMarketHours now \<longrightarrow> scheduleTask Stocks now env w = (Inr (), w))
   \<and> isMarketHours now = (day now \<noteq> 0 \<and> day now \<noteq> 6 \<and> 9 \<le> hour now \<and> hour now < 16)
   \<and> (markerPresent Stocks w \<longrightarrow>
        trace (snd (runOnce ''stocks'' env w)) = trace w @ [CacheGet ''stocks_latest''])
   \<and> (\<not> markerPresent Stocks w \<and> fetchResult env Stocks = Inr items \<and> items \<noteq> []
        \<and> collectionAdd env items = Inr () \<longrightarrow>
        trace (snd (runOnce ''stocks'' env w)) =
          trace w @ [CacheGet ''stocks_latest'', Fetch Stocks, AddData items,
                     CacheSet ''stocks_latest'' ''fetched'' (Some 600)])"
proof -
  have r: "runOnce ''stocks'' env w = ingest Stocks env w"
    by (simp add: runOnce_def ingest_def)
  have ok: "fst (ingest Stocks env w) = Inr ()" by (rule ingest_never_raises)
  have op: "isMarketHours now \<longrightarrow> scheduleTask Stocks now env w = ingest Stocks env w"
    using ok by (cases "ingest Stocks env w") (simp add: scheduleTask_def startTask_def tryCatch_def ingest_def)
  have cl: "\<not> isMarketHours now \<longrightarrow> scheduleTask Stocks now env w = (Inr (), w)"
    by (simp add: scheduleTask_def startTask_def tryCatch_def ret_def)
  have p: "markerPresent Stocks w \<longrightarrow>
        trace (snd (runOnce ''stocks'' env w)) = trace w @ [CacheGet ''stocks_latest'']"
    using ingest_present[of Stocks w env] by (simp add: r cacheKey_def)
  have a: "\<not> markerPresent Stocks w \<and> fetchResult env Stocks = Inr items \<and> items \<noteq> []
        \<and> collectionAdd env items = Inr () \<longrightarrow>
        trace (snd (runOnce ''stocks'' env w)) =
          trace w @ [CacheGet ''stocks_latest'', Fetch Stocks, AddData items,
                     CacheSet ''stocks_latest'' ''fetched'' (Some 600)]"
    using ingest_absent[of Stocks w env] by (simp add: r cacheKey_def cache_ttl_def)
  show ?thesis using r op cl p a isMarketHours_iff[of now] by blast
qed

theorem manual_stocks_run_ungated_witness:
  "scheduleTask Stocks \<lparr>day = 0, hour = 12\<rparr> envItems freshWorld = (Inr (), freshWorld)
   \<and> trace (snd (scheduleTask Stocks \<lparr>day = 2, hour = 10\<rparr> envItems freshWorld))
       = [CacheGet ''stocks_latest'', Fetch Stocks, AddData [exampleItem],
          CacheSet ''stocks_latest'' ''fetched'' (Some 600)]
   \<and> trace (snd (runOnce ''stocks'' envItems freshWorld))
       = [CacheGet ''stocks_latest'', Fetch Stocks, AddData [exampleItem],
          CacheSet ''stocks_latest'' ''fetched'' (Some 600)]
   \<and> trace (snd (runOnce ''stocks'' envItems markedWorld)) = [CacheGet ''stocks_latest'']"
  using manual_stocks_run_ungated[where now = "\<lparr>day = 0, hour = 12\<rparr>" and env = envItems and w = freshWorld and items = "[exampleItem]"]
    manual_stocks_run_ungated[where now = "\<lparr>day = 2, hour = 10\<rparr>" and env = envItems and w = freshWorld and items = "[exampleItem]"]
    manual_stocks_run_ungated[where now = "\<lparr>day = 2, hour = 10\<rparr>" and env = envItems and w = markedWorld and items = "[exampleItem]"]
  by (simp add: eval_defs)

end
